theory Spec2Isabelle
  imports Main "HOL-Library.Word"
begin

section \<open>Data model of hypervisor/setup.c\<close>

text \<open>
  Machine integers: \<^verbatim>\<open>unsigned int\<close> and \<^verbatim>\<open>int\<close> are 32-bit words (an \<^verbatim>\<open>int\<close> is
  only ever stored, copied and tested against zero here), \<^verbatim>\<open>u64\<close> and
  \<^verbatim>\<open>unsigned long\<close> are 64-bit words. Addition wraps as in C.
\<close>

type_synonym u32 = "32 word"
type_synonym s32 = "32 word"
type_synonym u64 = "64 word"

text \<open>\<^verbatim>\<open>struct jailhouse_memory\<close>: one memory region descriptor.\<close>

record jailhouse_memory =
  phys_start :: u64
  virt_start :: u64
  mem_size :: u64
  mem_flags :: u64

text \<open>
  The fields of \<^verbatim>\<open>struct jailhouse_system\<close> that setup.c reads: the system flags, the
  hypervisor memory region, the flags of the debug console and the static memory
  regions of the root cell (what \<^verbatim>\<open>for_each_mem_region\<close> walks through).
\<close>

record jailhouse_system =
  sys_flags :: u32
  hypervisor_memory :: jailhouse_memory
  debug_console_flags :: u32
  mem_regions :: "jailhouse_memory list"

text \<open>The fields of \<^verbatim>\<open>hypervisor_header\<close> that setup.c reads.\<close>

record jailhouse_header =
  core_size :: u64
  max_cpus :: u32
  online_cpus :: u32
  debug_console_base :: u64

text \<open>
  \<^verbatim>\<open>struct per_cpu\<close>, restricted to the fields that setup.c writes:
  \<^verbatim>\<open>public.cpu_id\<close>, \<^verbatim>\<open>public.cell\<close> and the three fields of \<^verbatim>\<open>pg_structs\<close>.
  Pointers are modelled by what they point to.
\<close>

datatype cell_ref = RootCell
datatype paging_ref = HvRootPaging
datatype table_ref = PublicRootTablePage

record per_cpu =
  public_cpu_id :: u32
  public_cell :: "cell_ref option"
  pg_hv_paging :: bool
  pg_root_paging :: "paging_ref option"
  pg_root_table :: "table_ref option"

text \<open>
  The two \<^verbatim>\<open>paging_create\<close> requests of \<^verbatim>\<open>cpu_init\<close>: the private mapping of the
  per-CPU data structure at \<^verbatim>\<open>LOCAL_CPU_BASE\<close>, and the non-present mapping of the
  temporary pages at \<^verbatim>\<open>TEMPORARY_MAPPING_BASE\<close>.
\<close>

datatype paging_request = PerCpuData | TemporaryPages

text \<open>
  Every call that leaves setup.c is recorded, in program order, as an event. A call
  whose result the code uses carries that result. \<^verbatim>\<open>printk\<close> is recorded with its
  format string (without the trailing newline and the arguments).
\<close>

datatype event =
    Printk string
  | ArchDbgWriteInit
  | GcovInit
  | PagingInit s32
  | CellInit s32
  | ArchInitEarly s32
  | ArchMapMemoryRegion jailhouse_memory s32
  | MmioSubpageRegister jailhouse_memory s32
  | PagingDumpStats string
  | PagingCreateHvptLink u32 u64 s32
  | PagingCreate u32 paging_request s32
  | ArchCpuInit u32 s32
  | UnitInit string s32
  | PagingSetFlag
  | ConfigCommit
  | Shutdown
  | ArchCpuRestore u32 s32
  | ArchCpuActivateVmm

text \<open>
  The fallible functions that setup.c calls but does not define. Their code is not part
  of the file, so each one is a parameter: it is given the events so far (everything
  its hidden state can depend on) and its arguments, and yields the returned
  \<^verbatim>\<open>int\<close>. A per-CPU structure is passed by the CPU id stored in it.
\<close>

record extern =
  paging_init :: "event list \<Rightarrow> s32"
  cell_init :: "event list \<Rightarrow> s32"
  arch_init_early :: "event list \<Rightarrow> s32"
  arch_map_memory_region :: "event list \<Rightarrow> jailhouse_memory \<Rightarrow> s32"
  mmio_subpage_register :: "event list \<Rightarrow> jailhouse_memory \<Rightarrow> s32"
  paging_create_hvpt_link :: "event list \<Rightarrow> u32 \<Rightarrow> u64 \<Rightarrow> s32"
  paging_create :: "event list \<Rightarrow> u32 \<Rightarrow> paging_request \<Rightarrow> s32"
  arch_cpu_init :: "event list \<Rightarrow> u32 \<Rightarrow> s32"
  unit_init :: "event list \<Rightarrow> string \<Rightarrow> s32"

text \<open>
  Everything else that setup.c takes from headers, the linker or the loader, again as
  parameters: constants and macros (\<^verbatim>\<open>PAGE_SIZE\<close>, \<^verbatim>\<open>JAILHOUSE_BASE\<close>,
  \<^verbatim>\<open>PGP_RO_BUF_VIRT\<close>, \<^verbatim>\<open>JAILHOUSE_MEM_READ\<close>, \<^verbatim>\<open>INVALID_CPU_ID\<close>, \<^verbatim>\<open>EINVAL\<close>,
  \<^verbatim>\<open>sizeof(struct per_cpu)\<close>, the build option \<^verbatim>\<open>CONFIG_PAGE_TABLE_PROTECTION\<close>, the
  predicates \<^verbatim>\<open>SYS_FLAGS_VIRTUAL_DEBUG_CONSOLE\<close>, \<^verbatim>\<open>CON_IS_MMIO\<close>,
  \<^verbatim>\<open>JAILHOUSE_MEMORY_IS_SUBPAGE\<close> and \<^verbatim>\<open>cpu_id_valid\<close>), the header as the loader left
  it, the configuration found at an address, the physical addresses
  \<^verbatim>\<open>paging_hvirt2phys(&console)\<close> and \<^verbatim>\<open>paging_hvirt2phys(empty_page)\<close>, the CPUs that
  \<^verbatim>\<open>for_each_cpu\<close> finds in \<^verbatim>\<open>root_cell.cpu_set\<close>, and the names of the registered
  units in the order of \<^verbatim>\<open>for_each_unit\<close>.
\<close>

record env =
  PAGE_SIZE :: u64
  JAILHOUSE_BASE :: u64
  PGP_RO_BUF_VIRT :: u64
  JAILHOUSE_MEM_READ :: u64
  INVALID_CPU_ID :: u32
  EINVAL :: s32
  sizeof_per_cpu :: u64
  CONFIG_PAGE_TABLE_PROTECTION :: bool
  SYS_FLAGS_VIRTUAL_DEBUG_CONSOLE :: "u32 \<Rightarrow> bool"
  CON_IS_MMIO :: "u32 \<Rightarrow> bool"
  JAILHOUSE_MEMORY_IS_SUBPAGE :: "jailhouse_memory \<Rightarrow> bool"
  cpu_id_valid :: "u32 \<Rightarrow> bool"
  hypervisor_header :: jailhouse_header
  config_at :: "u64 \<Rightarrow> jailhouse_system"
  console_phys :: u64
  empty_page_phys :: u64
  root_cell_cpu_set :: "u32 list"
  units :: "string list"
  ext :: extern

text \<open>
  The shared variables of setup.c: the file-scope statics, the \<^verbatim>\<open>activate\<close> flag of
  \<^verbatim>\<open>entry\<close>, and the globals \<^verbatim>\<open>system_config\<close>, \<^verbatim>\<open>virtual_console\<close> and
  \<^verbatim>\<open>root_cell.config\<close> that \<^verbatim>\<open>init_early\<close> sets (\<^verbatim>\<open>root_cell.config\<close> is kept as the
  address of the system configuration that holds the root cell descriptor).
  \<^verbatim>\<open>error\<close> is volatile, so every store to it is observable: \<open>error_stores\<close> lists the
  stored values in order. \<open>trace\<close> lists the calls leaving the file.
\<close>

record globals =
  init_lock :: bool
  master_cpu_id :: u32
  entered_cpus :: u32
  initialized_cpus :: u32
  error :: s32
  error_stores :: "s32 list"
  activate :: bool
  system_config :: u64
  virtual_console :: bool
  root_cell_config :: u64
  trace :: "event list"

definition log_event :: "event \<Rightarrow> globals \<Rightarrow> globals" where
  "log_event e s = s\<lparr>trace := trace s @ [e]\<rparr>"

definition store_error :: "s32 \<Rightarrow> globals \<Rightarrow> globals" where
  "store_error v s = s\<lparr>error := v, error_stores := error_stores s @ [v]\<rparr>"

text \<open>\<^verbatim>\<open>trace_error(code)\<close> yields its argument (it may print, by a build option).\<close>

definition trace_error :: "s32 \<Rightarrow> s32" where
  "trace_error code = code"

section \<open>init_early (lines 34-98)\<close>

text \<open>
  The loop of lines 84-94 over \<^verbatim>\<open>hv_page.virt_start\<close>. The addresses are 64-bit and
  wrap, so the loop need not end: not returning is \<open>None\<close>. \<open>Inl\<close> is the
  \<^verbatim>\<open>return\<close> of line 92 (leaving \<^verbatim>\<open>init_early\<close>), \<open>Inr\<close> the normal end of the loop.
\<close>

partial_function (option) map_hv_pages ::
  "env \<Rightarrow> u64 \<Rightarrow> u64 \<Rightarrow> globals \<Rightarrow> (globals + globals) option" where
  "map_hv_pages env hyp_phys_end hv_virt_start s =
    (if hv_virt_start < hyp_phys_end then
       (let hv_page = \<lparr>phys_start =
                          (if virtual_console s \<and> hv_virt_start = console_phys env
                           then console_phys env else empty_page_phys env),
                        virt_start = hv_virt_start,
                        mem_size = PAGE_SIZE env,
                        mem_flags = JAILHOUSE_MEM_READ env\<rparr>;
            r = arch_map_memory_region (ext env) (trace s) hv_page;
            s1 = store_error r (log_event (ArchMapMemoryRegion hv_page r) s)
        in if error s1 \<noteq> 0 then Some (Inl s1)
           else map_hv_pages env hyp_phys_end (hv_virt_start + PAGE_SIZE env) s1)
     else Some (Inr s))"

declare map_hv_pages.simps [code]

text \<open>
  Lines 36-46, the assignments that \<^verbatim>\<open>init_early\<close> makes before its first call:
  \<^verbatim>\<open>master_cpu_id\<close> first, then \<^verbatim>\<open>system_config\<close> and \<^verbatim>\<open>virtual_console\<close>.
\<close>

definition init_early_assign :: "env \<Rightarrow> u32 \<Rightarrow> globals \<Rightarrow> globals" where
  "init_early_assign env cpu s0 =
    (let core_and_percpu_size = core_size (hypervisor_header env) +
           sizeof_per_cpu env * ucast (max_cpus (hypervisor_header env));
         s1 = s0\<lparr>master_cpu_id := cpu\<rparr>;
         s2 = s1\<lparr>system_config := JAILHOUSE_BASE env + core_and_percpu_size\<rparr>;
         cfg = config_at env (system_config s2)
     in s2\<lparr>virtual_console := SYS_FLAGS_VIRTUAL_DEBUG_CONSOLE env (sys_flags cfg)\<rparr>)"

text \<open>Lines 48-97, the calls of \<^verbatim>\<open>init_early\<close>, each fallible one followed by its test.\<close>

definition init_early_calls :: "env \<Rightarrow> globals \<Rightarrow> globals option" where
  "init_early_calls env s3 =
    (let cfg = config_at env (system_config s3);
         s4 = log_event ArchDbgWriteInit s3;
         s5 = log_event (Printk ''Initializing Jailhouse hypervisor %s on CPU %d'') s4;
         s6 = log_event (Printk ''Code location: %p'') s5;
         s7 = log_event GcovInit s6;
         r1 = paging_init (ext env) (trace s7);
         s8 = store_error r1 (log_event (PagingInit r1) s7)
     in if error s8 \<noteq> 0 then Some s8
        else
          (let s9 = s8\<lparr>root_cell_config := system_config s8\<rparr>;
               r2 = cell_init (ext env) (trace s9);
               s10 = store_error r2 (log_event (CellInit r2) s9)
           in if error s10 \<noteq> 0 then Some s10
              else
                (let r3 = arch_init_early (ext env) (trace s10);
                     s11 = store_error r3 (log_event (ArchInitEarly r3) s10)
                 in if error s11 \<noteq> 0 then Some s11
                    else
                      (let hyp_phys_start = phys_start (hypervisor_memory cfg);
                           hyp_phys_end = hyp_phys_start + mem_size (hypervisor_memory cfg)
                       in case map_hv_pages env hyp_phys_end hyp_phys_start s11 of
                            None \<Rightarrow> None
                          | Some (Inl s12) \<Rightarrow> Some s12
                          | Some (Inr s12) \<Rightarrow>
                              Some (log_event (Printk ''Initializing processors:'')
                                     (log_event (PagingDumpStats ''after early setup'') s12))))))"

definition init_early :: "env \<Rightarrow> u32 \<Rightarrow> globals \<Rightarrow> globals option" where
  "init_early env cpu s0 = init_early_calls env (init_early_assign env cpu s0)"

section \<open>cpu_init (lines 100-175)\<close>

text \<open>The label \<^verbatim>\<open>failed\<close> (lines 172-174).\<close>

definition cpu_init_failed :: "s32 \<Rightarrow> globals \<Rightarrow> globals" where
  "cpu_init_failed err s = store_error err (log_event (Printk ''FAILED'') s)"

definition call_hvpt_link :: "env \<Rightarrow> per_cpu \<Rightarrow> u64 \<Rightarrow> globals \<Rightarrow> s32 \<times> globals" where
  "call_hvpt_link env cpu_data virt s =
    (let err = paging_create_hvpt_link (ext env) (trace s) (public_cpu_id cpu_data) virt
     in (err, log_event (PagingCreateHvptLink (public_cpu_id cpu_data) virt err) s))"

definition call_paging_create ::
  "env \<Rightarrow> per_cpu \<Rightarrow> paging_request \<Rightarrow> globals \<Rightarrow> s32 \<times> globals" where
  "call_paging_create env cpu_data req s =
    (let err = paging_create (ext env) (trace s) (public_cpu_id cpu_data) req
     in (err, log_event (PagingCreate (public_cpu_id cpu_data) req err) s))"

definition call_arch_cpu_init :: "env \<Rightarrow> per_cpu \<Rightarrow> globals \<Rightarrow> s32 \<times> globals" where
  "call_arch_cpu_init env cpu_data s =
    (let err = arch_cpu_init (ext env) (trace s) (public_cpu_id cpu_data)
     in (err, log_event (ArchCpuInit (public_cpu_id cpu_data) err) s))"

text \<open>
  Lines 121-131, compiled in when \<^verbatim>\<open>CONFIG_PAGE_TABLE_PROTECTION\<close> is defined; the
  result is the value of \<^verbatim>\<open>err\<close> afterwards (still 0 when the block is compiled out).
\<close>

definition pgp_ro_buf_link :: "env \<Rightarrow> per_cpu \<Rightarrow> globals \<Rightarrow> s32 \<times> globals" where
  "pgp_ro_buf_link env cpu_data s =
    (if CONFIG_PAGE_TABLE_PROTECTION env then
       (let (err, s1) = call_hvpt_link env cpu_data (PGP_RO_BUF_VIRT env) s
        in if err \<noteq> 0
           then (err, log_event (Printk ''error in mapping pgp ro buf hvpt link'') s1)
           else (err, log_event (Printk ''sucess in mapping pgp ro buf hvpt link'') s1))
     else (0, s))"

definition cpu_init :: "env \<Rightarrow> per_cpu \<Rightarrow> globals \<Rightarrow> per_cpu \<times> globals" where
  "cpu_init env cpu_data0 s0 =
    (let s1 = log_event (Printk '' CPU %d... '') s0
     in if \<not> cpu_id_valid env (public_cpu_id cpu_data0)
        then (cpu_data0, cpu_init_failed (- EINVAL env) s1)
        else
          (let cpu_data = cpu_data0\<lparr>public_cell := Some RootCell,
                                    pg_hv_paging := True,
                                    pg_root_paging := Some HvRootPaging,
                                    pg_root_table := Some PublicRootTablePage\<rparr>;
               (err1, s2) = call_hvpt_link env cpu_data (JAILHOUSE_BASE env) s1
           in if err1 \<noteq> 0 then (cpu_data, cpu_init_failed err1 s2)
              else
                (let (err2, s3) = pgp_ro_buf_link env cpu_data s2
                 in if err2 \<noteq> 0 then (cpu_data, cpu_init_failed err2 s3)
                    else
                      (let (err3, s4) =
                             (if CON_IS_MMIO env
                                   (debug_console_flags (config_at env (system_config s3)))
                              then call_hvpt_link env cpu_data
                                     (debug_console_base (hypervisor_header env)) s3
                              else (err2, s3))
                       in if err3 \<noteq> 0 then (cpu_data, cpu_init_failed err3 s4)
                          else
                            (let (err4, s5) = call_paging_create env cpu_data PerCpuData s4
                             in if err4 \<noteq> 0 then (cpu_data, cpu_init_failed err4 s5)
                                else
                                  (let (err5, s6) = call_arch_cpu_init env cpu_data s5
                                   in if err5 \<noteq> 0 then (cpu_data, cpu_init_failed err5 s6)
                                      else
                                        (let (err6, s7) =
                                               call_paging_create env cpu_data TemporaryPages s6
                                         in if err6 \<noteq> 0
                                            then (cpu_data, cpu_init_failed err6 s7)
                                            else
                                              (let s8 = log_event (Printk ''OK'') s7
                                               in (cpu_data,
                                                   s8\<lparr>initialized_cpus :=
                                                        initialized_cpus s8 + 1\<rparr>)))))))))"

section \<open>init_late (lines 177-215)\<close>

text \<open>
  The two loops of \<^verbatim>\<open>init_late\<close>. \<open>Inl\<close> is a \<^verbatim>\<open>return\<close> out of \<^verbatim>\<open>init_late\<close>
  (lines 194 and 203), \<open>Inr\<close> the normal end of the loop.
\<close>

fun init_units :: "env \<Rightarrow> string list \<Rightarrow> globals \<Rightarrow> globals + globals" where
  "init_units env [] s = Inr s"
| "init_units env (unit_name # rest) s =
    (let s1 = log_event (Printk ''Initializing unit: %s'') s;
         r = unit_init (ext env) (trace s1) unit_name;
         s2 = store_error r (log_event (UnitInit unit_name r) s1)
     in if error s2 \<noteq> 0 then Inl s2 else init_units env rest s2)"

fun map_mem_regions :: "env \<Rightarrow> jailhouse_memory list \<Rightarrow> globals \<Rightarrow> globals + globals" where
  "map_mem_regions env [] s = Inr s"
| "map_mem_regions env (mem # rest) s =
    (let s1 = (if JAILHOUSE_MEMORY_IS_SUBPAGE env mem
               then (let r = mmio_subpage_register (ext env) (trace s) mem
                     in store_error r (log_event (MmioSubpageRegister mem r) s))
               else (let r = arch_map_memory_region (ext env) (trace s) mem
                     in store_error r (log_event (ArchMapMemoryRegion mem r) s)))
     in if error s1 \<noteq> 0 then Inl s1 else map_mem_regions env rest s1)"

definition init_late :: "env \<Rightarrow> globals \<Rightarrow> globals" where
  "init_late env s0 =
    (let expected_cpus = fold (\<lambda>cpu n. n + 1) (root_cell_cpu_set env) (0 :: u32)
     in if online_cpus (hypervisor_header env) \<noteq> expected_cpus
        then store_error (trace_error (- EINVAL env)) s0
        else
          (case init_units env (units env) s0 of
             Inl s1 \<Rightarrow> s1
           | Inr s1 \<Rightarrow>
               (case map_mem_regions env
                       (mem_regions (config_at env (root_cell_config s1))) s1 of
                  Inl s2 \<Rightarrow> s2
                | Inr s2 \<Rightarrow>
                    (let s3 = (if CONFIG_PAGE_TABLE_PROTECTION env
                               then log_event PagingSetFlag s2 else s2);
                         s4 = log_event ConfigCommit s3
                     in log_event (PagingDumpStats ''after late setup'') s4))))"

section \<open>entry (lines 221-288), one core among several\<close>

text \<open>
  Every core runs \<^verbatim>\<open>entry\<close> on the shared variables. A core is its program counter
  and its locals: the arguments \<^verbatim>\<open>cpu_id\<close> and \<^verbatim>\<open>*cpu_data\<close>, and \<^verbatim>\<open>master\<close>. The
  program counter names the statement the core executes next:

  \<^item> \<open>Start\<close>: lines 223-227, the first \<^verbatim>\<open>printk\<close> and \<^verbatim>\<open>cpu_data->public.cpu_id = cpu_id\<close>;
  \<^item> \<open>Lock1\<close>: line 229, \<^verbatim>\<open>spin_lock(&init_lock)\<close>;
  \<^item> \<open>IncEntered\<close>: line 237, \<^verbatim>\<open>entered_cpus++\<close>;
  \<^item> \<open>Unlock1\<close>: line 239, \<^verbatim>\<open>spin_unlock(&init_lock)\<close>;
  \<^item> \<open>WaitEntered\<close>: lines 241-242, one test of the first busy-wait loop;
  \<^item> \<open>Lock2\<close>: line 244, \<^verbatim>\<open>spin_lock(&init_lock)\<close>;
  \<^item> \<open>Elect\<close>: lines 246-249, the test of \<^verbatim>\<open>master_cpu_id\<close> and \<^verbatim>\<open>master = true\<close>;
  \<^item> \<open>EarlyInit\<close>: line 250, the call of \<^verbatim>\<open>init_early\<close>;
  \<^item> \<open>PerCpuInit\<close>: lines 253-254, \<^verbatim>\<open>if (!error) cpu_init(cpu_data)\<close>;
  \<^item> \<open>Unlock2\<close>: line 256, \<^verbatim>\<open>spin_unlock(&init_lock)\<close>;
  \<^item> \<open>WaitInitialized\<close>: lines 258-259, one test of the second busy-wait loop;
  \<^item> \<open>Branch261\<close>: line 261, the test \<^verbatim>\<open>!error && master\<close>;
  \<^item> \<open>LateInit\<close>: line 262, the call of \<^verbatim>\<open>init_late\<close>;
  \<^item> \<open>SetActivate\<close>: lines 263-270, \<^verbatim>\<open>if (!error) activate = true\<close>;
  \<^item> \<open>WaitActivate\<close>: lines 272-273, one test of the third busy-wait loop;
  \<^item> \<open>CheckError\<close>: lines 276-277, the tests of \<^verbatim>\<open>error\<close> and \<^verbatim>\<open>master\<close>;
  \<^item> \<open>DoShutdown\<close>: line 278, \<^verbatim>\<open>shutdown()\<close>;
  \<^item> \<open>Restore\<close>: line 279, \<^verbatim>\<open>arch_cpu_restore(cpu_id, error)\<close>;
  \<^item> \<open>Return\<close>: line 280, \<^verbatim>\<open>return error\<close>;
  \<^item> \<open>Activate\<close>: lines 283-287, the last \<^verbatim>\<open>printk\<close> and \<^verbatim>\<open>arch_cpu_activate_vmm()\<close>;
  \<^item> \<open>Returned e\<close>: \<^verbatim>\<open>entry\<close> has returned \<open>e\<close>;
  \<^item> \<open>Activated\<close>: the core is inside \<^verbatim>\<open>arch_cpu_activate_vmm\<close>, which does not return.

  Memory is sequentially consistent in this model, so \<^verbatim>\<open>memory_barrier()\<close> and
  \<^verbatim>\<open>cpu_relax()\<close> do nothing.
\<close>

datatype pc =
    Start | Lock1 | IncEntered | Unlock1 | WaitEntered | Lock2 | Elect | EarlyInit
  | PerCpuInit | Unlock2 | WaitInitialized | Branch261 | LateInit | SetActivate
  | WaitActivate | CheckError | DoShutdown | Restore | Return | Activate
  | Returned s32 | Activated

record core =
  pc :: pc
  arg_cpu_id :: u32
  cpu_data :: per_cpu
  master :: bool

text \<open>
  One step of one core. A busy-wait test that fails, a lock that is taken and a core
  that has finished leave everything as it is. \<open>None\<close>: the core is in the loop of
  \<^verbatim>\<open>init_early\<close> for ever.

  A call of \<^verbatim>\<open>init_early\<close>, \<^verbatim>\<open>cpu_init\<close> or \<^verbatim>\<open>init_late\<close> is one step. The other cores
  read only \<^verbatim>\<open>error\<close>, the two counters and \<^verbatim>\<open>activate\<close> meanwhile (the loop tests of lines
  241, 258 and 272). Such a call stores to \<^verbatim>\<open>error\<close>, which the model logs in
  \<open>error_stores\<close>: zeros, and at most one other value, after which the call returns
  (\<open>init_early_effect\<close>, \<open>cpu_init_effect\<close> and \<open>init_late_effect\<close> below); and
  \<^verbatim>\<open>cpu_init\<close> increments \<^verbatim>\<open>initialized_cpus\<close> as the last thing it does. So what a
  reader sees during the call is what it sees right before or right after the step. A
  loop test that reads two variables is one step, at the read that decides it.
\<close>

definition core_step :: "env \<Rightarrow> core \<Rightarrow> globals \<Rightarrow> (core \<times> globals) option" where
  "core_step env c s =
    (case pc c of
       Start \<Rightarrow>
         Some (c\<lparr>pc := Lock1, cpu_data := (cpu_data c)\<lparr>public_cpu_id := arg_cpu_id c\<rparr>\<rparr>,
               log_event (Printk ''[PGP]: %d cpu get in entry...'') s)
     | Lock1 \<Rightarrow>
         (if init_lock s then Some (c, s)
          else Some (c\<lparr>pc := IncEntered\<rparr>, s\<lparr>init_lock := True\<rparr>))
     | IncEntered \<Rightarrow> Some (c\<lparr>pc := Unlock1\<rparr>, s\<lparr>entered_cpus := entered_cpus s + 1\<rparr>)
     | Unlock1 \<Rightarrow> Some (c\<lparr>pc := WaitEntered\<rparr>, s\<lparr>init_lock := False\<rparr>)
     | WaitEntered \<Rightarrow>
         (if entered_cpus s < online_cpus (hypervisor_header env) then Some (c, s)
          else Some (c\<lparr>pc := Lock2\<rparr>, s))
     | Lock2 \<Rightarrow>
         (if init_lock s then Some (c, s)
          else Some (c\<lparr>pc := Elect\<rparr>, s\<lparr>init_lock := True\<rparr>))
     | Elect \<Rightarrow>
         (if master_cpu_id s = INVALID_CPU_ID env
          then Some (c\<lparr>pc := EarlyInit, master := True\<rparr>, s)
          else Some (c\<lparr>pc := PerCpuInit\<rparr>, s))
     | EarlyInit \<Rightarrow>
         (case init_early env (arg_cpu_id c) s of
            None \<Rightarrow> None
          | Some s1 \<Rightarrow> Some (c\<lparr>pc := PerCpuInit\<rparr>, s1))
     | PerCpuInit \<Rightarrow>
         (if error s = 0
          then (let (cpu_data1, s1) = cpu_init env (cpu_data c) s
                in Some (c\<lparr>pc := Unlock2, cpu_data := cpu_data1\<rparr>, s1))
          else Some (c\<lparr>pc := Unlock2\<rparr>, s))
     | Unlock2 \<Rightarrow> Some (c\<lparr>pc := WaitInitialized\<rparr>, s\<lparr>init_lock := False\<rparr>)
     | WaitInitialized \<Rightarrow>
         (if error s = 0 \<and> initialized_cpus s < online_cpus (hypervisor_header env)
          then Some (c, s)
          else Some (c\<lparr>pc := Branch261\<rparr>, s))
     | Branch261 \<Rightarrow>
         (if error s = 0 \<and> master c then Some (c\<lparr>pc := LateInit\<rparr>, s)
          else Some (c\<lparr>pc := WaitActivate\<rparr>, s))
     | LateInit \<Rightarrow> Some (c\<lparr>pc := SetActivate\<rparr>, init_late env s)
     | SetActivate \<Rightarrow>
         (if error s = 0 then Some (c\<lparr>pc := CheckError\<rparr>, s\<lparr>activate := True\<rparr>)
          else Some (c\<lparr>pc := CheckError\<rparr>, s))
     | WaitActivate \<Rightarrow>
         (if error s = 0 \<and> \<not> activate s then Some (c, s)
          else Some (c\<lparr>pc := CheckError\<rparr>, s))
     | CheckError \<Rightarrow>
         (if error s \<noteq> 0
          then (if master c then Some (c\<lparr>pc := DoShutdown\<rparr>, s)
                else Some (c\<lparr>pc := Restore\<rparr>, s))
          else Some (c\<lparr>pc := Activate\<rparr>, s))
     | DoShutdown \<Rightarrow> Some (c\<lparr>pc := Restore\<rparr>, log_event Shutdown s)
     | Restore \<Rightarrow>
         Some (c\<lparr>pc := Return\<rparr>, log_event (ArchCpuRestore (arg_cpu_id c) (error s)) s)
     | Return \<Rightarrow> Some (c\<lparr>pc := Returned (error s)\<rparr>, s)
     | Activate \<Rightarrow>
         Some (c\<lparr>pc := Activated\<rparr>,
               log_event ArchCpuActivateVmm
                 (if master c then log_event (Printk ''Activating hypervisor'') s else s))
     | Returned e \<Rightarrow> Some (c, s)
     | Activated \<Rightarrow> Some (c, s))"

text \<open>
  The system: the shared variables and the cores. A schedule is the list of the cores
  that take the next steps, in order; every interleaving of the cores is a schedule.
\<close>

record system =
  shared :: globals
  cores :: "core list"

definition step :: "env \<Rightarrow> nat \<Rightarrow> system \<Rightarrow> system option" where
  "step env i sys =
    (if i < length (cores sys)
     then (case core_step env (cores sys ! i) (shared sys) of
             None \<Rightarrow> None
           | Some (c, s) \<Rightarrow> Some \<lparr>shared = s, cores = (cores sys)[i := c]\<rparr>)
     else Some sys)"

fun run :: "env \<Rightarrow> nat list \<Rightarrow> system \<Rightarrow> system option" where
  "run env [] sys = Some sys"
| "run env (i # sched) sys =
    (case step env i sys of None \<Rightarrow> None | Some sys1 \<Rightarrow> run env sched sys1)"

text \<open>
  The state before any core has entered: the statics are zero, \<^verbatim>\<open>master_cpu_id\<close> is
  \<^verbatim>\<open>INVALID_CPU_ID\<close> (line 30) and the lock is free. \<open>boot\<close> takes the arguments
  \<^verbatim>\<open>(cpu_id, *cpu_data)\<close> with which each core calls \<^verbatim>\<open>entry\<close>.
\<close>

definition globals0 :: "env \<Rightarrow> globals" where
  "globals0 env =
    \<lparr>init_lock = False, master_cpu_id = INVALID_CPU_ID env, entered_cpus = 0,
     initialized_cpus = 0, error = 0, error_stores = [], activate = False,
     system_config = 0, virtual_console = False, root_cell_config = 0, trace = []\<rparr>"

definition boot :: "env \<Rightarrow> (u32 \<times> per_cpu) list \<Rightarrow> system" where
  "boot env args =
    \<lparr>shared = globals0 env,
     cores = map (\<lambda>(cpu, d). \<lparr>pc = Start, arg_cpu_id = cpu, cpu_data = d, master = False\<rparr>) args\<rparr>"

section \<open>Example configurations\<close>

text \<open>
  A small machine on which the theorems below are exercised: pages of 4096 bytes, two
  CPUs (0 and 1), a hypervisor region of three pages at 0x1000, one registered unit
  and two memory regions in the root cell, the second of which is sub-page. Every call
  leaving the file succeeds.
\<close>

definition ok_extern :: extern where
  "ok_extern =
    \<lparr>paging_init = (\<lambda>h. 0), cell_init = (\<lambda>h. 0), arch_init_early = (\<lambda>h. 0),
     arch_map_memory_region = (\<lambda>h m. 0), mmio_subpage_register = (\<lambda>h m. 0),
     paging_create_hvpt_link = (\<lambda>h c a. 0), paging_create = (\<lambda>h c r. 0),
     arch_cpu_init = (\<lambda>h c. 0), unit_init = (\<lambda>h u. 0)\<rparr>"

definition example_config :: jailhouse_system where
  "example_config =
    \<lparr>sys_flags = 0,
     hypervisor_memory =
       \<lparr>phys_start = 0x1000, virt_start = 0x1000, mem_size = 0x3000, mem_flags = 1\<rparr>,
     debug_console_flags = 0,
     mem_regions =
       [\<lparr>phys_start = 0x100000, virt_start = 0x100000, mem_size = 0x2000, mem_flags = 3\<rparr>,
        \<lparr>phys_start = 0x200000, virt_start = 0x200080, mem_size = 0x10, mem_flags = 3\<rparr>]\<rparr>"

definition example_env :: env where
  "example_env =
    \<lparr>PAGE_SIZE = 0x1000, JAILHOUSE_BASE = 0xfffffffff0000000, PGP_RO_BUF_VIRT = 0x40000000,
     JAILHOUSE_MEM_READ = 1, INVALID_CPU_ID = - 1, EINVAL = 22, sizeof_per_cpu = 0x4000,
     CONFIG_PAGE_TABLE_PROTECTION = False,
     SYS_FLAGS_VIRTUAL_DEBUG_CONSOLE = (\<lambda>f. f \<noteq> 0),
     CON_IS_MMIO = (\<lambda>f. f \<noteq> 0),
     JAILHOUSE_MEMORY_IS_SUBPAGE = (\<lambda>m. virt_start m mod 0x1000 \<noteq> 0 \<or> mem_size m mod 0x1000 \<noteq> 0),
     cpu_id_valid = (\<lambda>c. c < 2),
     hypervisor_header =
       \<lparr>core_size = 0x100000, max_cpus = 2, online_cpus = 2, debug_console_base = 0\<rparr>,
     config_at = (\<lambda>a. example_config),
     console_phys = 0x2000, empty_page_phys = 0x9000,
     root_cell_cpu_set = [0, 1], units = [''unit0''], ext = ok_extern\<rparr>"

definition example_per_cpu :: per_cpu where
  "example_per_cpu =
    \<lparr>public_cpu_id = 0, public_cell = None, pg_hv_paging = False,
     pg_root_paging = None, pg_root_table = None\<rparr>"

text \<open>The header announces four online CPUs, the CPU set of the root cell holds three.\<close>

definition mismatch_env :: env where
  "mismatch_env =
    example_env\<lparr>hypervisor_header :=
                   \<lparr>core_size = 0x100000, max_cpus = 4, online_cpus = 4, debug_console_base = 0\<rparr>,
                 root_cell_cpu_set := [0, 1, 2]\<rparr>"

text \<open>The same machine when \<open>arch_map_memory_region\<close> fails with \<open>- 12\<close>.\<close>

definition failing_map_env :: env where
  "failing_map_env = example_env\<lparr>ext := ok_extern\<lparr>arch_map_memory_region := (\<lambda>h m. - 12)\<rparr>\<rparr>"

text \<open>
  The same machine with the virtual console enabled; the console page is the second
  page of the hypervisor region.
\<close>

definition console_config :: jailhouse_system where
  "console_config = example_config\<lparr>sys_flags := 1\<rparr>"

definition console_env :: env where
  "console_env = example_env\<lparr>config_at := (\<lambda>a. console_config)\<rparr>"

text \<open>
  The same machine when a callee fails: \<open>mmio_subpage_register\<close> with \<open>- 16\<close>, the unit
  initialiser with \<open>- 19\<close>, \<open>arch_map_memory_region\<close> with \<open>- 12\<close> on the page at
  \<open>0x2000\<close> only, \<open>arch_cpu_init\<close> with \<open>- 12\<close> on CPU 1 only, and \<open>paging_init\<close> with
  \<open>- 12\<close>.
\<close>

definition failing_subpage_env :: env where
  "failing_subpage_env = example_env\<lparr>ext := ok_extern\<lparr>mmio_subpage_register := (\<lambda>h m. - 16)\<rparr>\<rparr>"

definition failing_unit_env :: env where
  "failing_unit_env = example_env\<lparr>ext := ok_extern\<lparr>unit_init := (\<lambda>h u. - 19)\<rparr>\<rparr>"

definition failing_page_env :: env where
  "failing_page_env =
     example_env\<lparr>ext := ok_extern\<lparr>arch_map_memory_region :=
                                     (\<lambda>h m. if virt_start m = 0x2000 then - 12 else 0)\<rparr>\<rparr>"

definition fail_env :: env where
  "fail_env = example_env\<lparr>ext := ok_extern\<lparr>arch_cpu_init := (\<lambda>h c. if c = 1 then - 12 else 0)\<rparr>\<rparr>"

definition early_fail_env :: env where
  "early_fail_env = example_env\<lparr>ext := ok_extern\<lparr>paging_init := (\<lambda>h. - 12)\<rparr>\<rparr>"

text \<open>
  The same machine with a hypervisor region of two pages whose end
  \<open>phys_start + size\<close> wraps around \<open>2 ^ 64\<close> to 0x1000.
\<close>

definition wrap_config :: jailhouse_system where
  "wrap_config =
     example_config\<lparr>hypervisor_memory :=
       \<lparr>phys_start = 0xfffffffffffff000, virt_start = 0xfffffffffffff000,
        mem_size = 0x2000, mem_flags = 1\<rparr>\<rparr>"

definition wrap_env :: env where
  "wrap_env = example_env\<lparr>config_at := (\<lambda>a. wrap_config)\<rparr>"

text \<open>
  Two cores, CPU 0 and CPU 1, call \<open>entry\<close>. In the schedule \<open>rr k\<close> they take turns,
  \<open>k\<close> steps each. \<open>outcome\<close> reads off a state where each core is, which core is
  master, the two counters, \<open>error\<close> and \<open>activate\<close>.
\<close>

definition ex_args :: "(u32 \<times> per_cpu) list" where
  "ex_args = [(0, example_per_cpu), (1, example_per_cpu)]"

definition rr :: "nat \<Rightarrow> nat list" where
  "rr k = concat (replicate k [0, 1])"

definition outcome :: "system \<Rightarrow> pc list \<times> bool list \<times> u32 \<times> u32 \<times> s32 \<times> bool" where
  "outcome sys = (map pc (cores sys), map master (cores sys), entered_cpus (shared sys),
     initialized_cpus (shared sys), error (shared sys), activate (shared sys))"

text \<open>
  States of these runs: \<open>ex_done\<close>, both cores have activated the hypervisor;
  \<open>ex_gate\<close>, CPU 0 has returned from \<open>init_late\<close> and is about to set \<open>activate\<close>;
  \<open>fail_mid\<close>, \<open>cpu_init\<close> has just failed on CPU 1; \<open>early_mid\<close>, \<open>init_early\<close> has
  failed on CPU 0 and CPU 1 is about to test \<open>master_cpu_id\<close>; \<open>late_mid\<close>, \<open>init_late\<close>
  has just failed on CPU 0.
\<close>

definition ex_done :: system where
  "ex_done = the (run example_env (rr 20) (boot example_env ex_args))"

definition ex_gate :: system where
  "ex_gate = the (run example_env (rr 16) (boot example_env ex_args))"

definition fail_mid :: system where
  "fail_mid = the (run fail_env (rr 13) (boot fail_env ex_args))"

definition early_mid :: system where
  "early_mid = the (run early_fail_env (rr 11) (boot early_fail_env ex_args))"

text \<open>
  The same boot when CPU 1 takes each turn before CPU 0, and its state after twenty
  rounds; and the boot in its first state, from which forty rounds are run.
\<close>

definition rr_rev :: "nat \<Rightarrow> nat list" where
  "rr_rev k = concat (replicate k [1, 0])"

definition ex_done_rev :: system where
  "ex_done_rev = the (run example_env (rr_rev 20) (boot example_env ex_args))"

definition ex_after_40 :: system where
  "ex_after_40 = the (run example_env (rr 40) (boot example_env ex_args))"

definition late_mid :: system where
  "late_mid = the (run failing_unit_env (rr 16) (boot failing_unit_env ex_args))"

section \<open>Observing a run\<close>

text \<open>
  The variables other than \<open>error\<close>, its stores and the trace: what a function leaves
  alone when it only calls out and stores to \<open>error\<close>.
\<close>

definition frame :: "globals \<Rightarrow> globals" where
  "frame s = s\<lparr>error := 0, error_stores := [], trace := []\<rparr>"

text \<open>The value a call returned (0 for a call without a used result).\<close>

fun event_result :: "event \<Rightarrow> s32" where
  "event_result (PagingInit r) = r"
| "event_result (CellInit r) = r"
| "event_result (ArchInitEarly r) = r"
| "event_result (ArchMapMemoryRegion m r) = r"
| "event_result (MmioSubpageRegister m r) = r"
| "event_result (PagingCreateHvptLink c a r) = r"
| "event_result (PagingCreate c q r) = r"
| "event_result (ArchCpuInit c r) = r"
| "event_result (UnitInit u r) = r"
| "event_result e = 0"

fun is_unit_event :: "event \<Rightarrow> bool" where
  "is_unit_event (UnitInit u r) = True"
| "is_unit_event e = False"

text \<open>The two calls that \<open>init_late\<close> makes on a memory region.\<close>

fun is_region_event :: "event \<Rightarrow> bool" where
  "is_region_event (ArchMapMemoryRegion m r) = True"
| "is_region_event (MmioSubpageRegister m r) = True"
| "is_region_event e = False"

fun is_map_event :: "event \<Rightarrow> bool" where
  "is_map_event (ArchMapMemoryRegion m r) = True"
| "is_map_event e = False"

text \<open>
  The call that Late Global Init is to make on a region, following the specification:
  a region of sub-page granularity is registered with the sub-page MMIO mechanism, any
  other region is mapped directly.
\<close>

definition region_call :: "env \<Rightarrow> jailhouse_memory \<Rightarrow> s32 \<Rightarrow> event" where
  "region_call env mem r =
    (if JAILHOUSE_MEMORY_IS_SUBPAGE env mem then MmioSubpageRegister mem r
     else ArchMapMemoryRegion mem r)"

text \<open>The events of a successful pass over units: a message and the initialiser.\<close>

definition unit_events :: "string list \<Rightarrow> event list" where
  "unit_events us = concat (map (\<lambda>u. [Printk ''Initializing unit: %s'', UnitInit u 0]) us)"

text \<open>The events that one call of \<open>init_late\<close> or \<open>init_early\<close> adds to the trace.\<close>

definition init_late_events :: "env \<Rightarrow> globals \<Rightarrow> event list" where
  "init_late_events env s = drop (length (trace s)) (trace (init_late env s))"

definition init_early_events :: "env \<Rightarrow> u32 \<Rightarrow> globals \<Rightarrow> event list" where
  "init_early_events env cpu s =
    (case init_early env cpu s of None \<Rightarrow> [] | Some s' \<Rightarrow> drop (length (trace s)) (trace s'))"

text \<open>
  The system configuration that \<open>init_early\<close> locates (lines 36-44): it follows the
  hypervisor core and the per-CPU structures.
\<close>

definition boot_config :: "env \<Rightarrow> jailhouse_system" where
  "boot_config env =
    config_at env (JAILHOUSE_BASE env +
      (core_size (hypervisor_header env) +
       sizeof_per_cpu env * ucast (max_cpus (hypervisor_header env))))"

text \<open>
  The pages of the hypervisor memory region, following the specification: one
  page-sized slot for every page that the region \<open>[phys_start, phys_start + size)\<close>
  touches, readable, backed by the empty page, except that with the virtual console
  enabled the slot at the physical address of the console page is backed by the
  console page.
\<close>

definition hv_page_count :: "env \<Rightarrow> nat" where
  "hv_page_count env =
    (unat (mem_size (hypervisor_memory (boot_config env))) + unat (PAGE_SIZE env) - 1)
       div unat (PAGE_SIZE env)"

definition hv_page :: "env \<Rightarrow> nat \<Rightarrow> jailhouse_memory" where
  "hv_page env k =
    (let addr = phys_start (hypervisor_memory (boot_config env)) + of_nat k * PAGE_SIZE env
     in \<lparr>phys_start =
           (if SYS_FLAGS_VIRTUAL_DEBUG_CONSOLE env (sys_flags (boot_config env))
               \<and> addr = console_phys env
            then console_phys env else empty_page_phys env),
         virt_start = addr,
         mem_size = PAGE_SIZE env,
         mem_flags = JAILHOUSE_MEM_READ env\<rparr>)"

definition hv_pages :: "env \<Rightarrow> jailhouse_memory list" where
  "hv_pages env = map (hv_page env) [0..<hv_page_count env]"

text \<open>The descriptor that the loop of lines 84-94 builds for its \<open>k\<close>-th round.\<close>

definition hv_slot :: "env \<Rightarrow> bool \<Rightarrow> u64 \<Rightarrow> nat \<Rightarrow> jailhouse_memory" where
  "hv_slot env vc start k =
     \<lparr>phys_start = (if vc \<and> start + of_nat k * PAGE_SIZE env = console_phys env
                     then console_phys env else empty_page_phys env),
      virt_start = start + of_nat k * PAGE_SIZE env,
      mem_size = PAGE_SIZE env,
      mem_flags = JAILHOUSE_MEM_READ env\<rparr>"

text \<open>The calls of \<open>init_early\<close> before the first fallible one (lines 48-54).\<close>

definition early_prefix :: "event list" where
  "early_prefix =
    [ArchDbgWriteInit, Printk ''Initializing Jailhouse hypervisor %s on CPU %d'',
     Printk ''Code location: %p'', GcovInit]"

text \<open>
  What the callee of a recorded call returns: the function of \<open>ext env\<close> that the
  event names, applied to the calls made before it (the trace up to the event) and to
  the arguments that the event records. An event list is \<open>faithful\<close> from a history
  \<open>h\<close> when every event in it records the value that its callee returns at that point;
  \<open>follows env s s'\<close>: the trace of \<open>s'\<close> extends the trace of \<open>s\<close> by a faithful list.
\<close>

fun callee_result :: "env \<Rightarrow> event list \<Rightarrow> event \<Rightarrow> s32" where
  "callee_result env h (PagingInit r) = paging_init (ext env) h"
| "callee_result env h (CellInit r) = cell_init (ext env) h"
| "callee_result env h (ArchInitEarly r) = arch_init_early (ext env) h"
| "callee_result env h (ArchMapMemoryRegion m r) = arch_map_memory_region (ext env) h m"
| "callee_result env h (MmioSubpageRegister m r) = mmio_subpage_register (ext env) h m"
| "callee_result env h (PagingCreateHvptLink c a r) = paging_create_hvpt_link (ext env) h c a"
| "callee_result env h (PagingCreate c q r) = paging_create (ext env) h c q"
| "callee_result env h (ArchCpuInit c r) = arch_cpu_init (ext env) h c"
| "callee_result env h (UnitInit u r) = unit_init (ext env) h u"
| "callee_result env h e = 0"

fun faithful :: "env \<Rightarrow> event list \<Rightarrow> event list \<Rightarrow> bool" where
  "faithful env h [] = True"
| "faithful env h (e # es) =
     (event_result e = callee_result env h e \<and> faithful env (h @ [e]) es)"

definition follows :: "env \<Rightarrow> globals \<Rightarrow> globals \<Rightarrow> bool" where
  "follows env s s' \<longleftrightarrow> (\<exists>evs. trace s' = trace s @ evs \<and> faithful env (trace s) evs)"

text \<open>The state with which a loop ends, whether by \<^verbatim>\<open>return\<close> or normally.\<close>

definition result_state :: "globals + globals \<Rightarrow> globals" where
  "result_state res = (case res of Inl s \<Rightarrow> s | Inr s \<Rightarrow> s)"

section \<open>Observing the cores\<close>

text \<open>
  \<open>rank\<close> numbers the statements of \<^verbatim>\<open>entry\<close> in program order; a core never goes back,
  so \<open>k \<le> rank (pc c)\<close> says that core \<open>c\<close> has reached statement \<open>k\<close>. In particular
  \<open>3 \<le> rank (pc c)\<close>: the core has executed \<^verbatim>\<open>entered_cpus++\<close>;
  \<open>7 \<le> rank (pc c)\<close>: it has made the test of \<^verbatim>\<open>master_cpu_id\<close> (line 246);
  \<open>8 \<le> rank (pc c)\<close>: it is past the call of \<^verbatim>\<open>init_early\<close>, if it made one;
  \<open>9 \<le> rank (pc c)\<close>: it is past lines 253-254, the call of \<^verbatim>\<open>cpu_init\<close> or its skipping.
  \<open>in_cs\<close> holds of the statements between \<^verbatim>\<open>spin_lock\<close> and \<^verbatim>\<open>spin_unlock\<close>
  (lines 229-239 and 244-256).
\<close>

fun rank :: "pc \<Rightarrow> nat" where
  "rank Start = 0" | "rank Lock1 = 1" | "rank IncEntered = 2" | "rank Unlock1 = 3"
| "rank WaitEntered = 4" | "rank Lock2 = 5" | "rank Elect = 6" | "rank EarlyInit = 7"
| "rank PerCpuInit = 8" | "rank Unlock2 = 9" | "rank WaitInitialized = 10"
| "rank Branch261 = 11" | "rank LateInit = 12" | "rank SetActivate = 13"
| "rank WaitActivate = 14" | "rank CheckError = 15" | "rank DoShutdown = 16"
| "rank Restore = 17" | "rank Return = 18" | "rank Activate = 19"
| "rank (Returned e) = 20" | "rank Activated = 20"

definition in_cs :: "pc \<Rightarrow> bool" where
  "in_cs p \<longleftrightarrow> p \<in> {IncEntered, Unlock1, Elect, EarlyInit, PerCpuInit, Unlock2}"

text \<open>
  The calls that only \<^verbatim>\<open>entry\<close> itself makes (lines 278, 279 and 287), and the events
  that the three initialisation functions can add.
\<close>

fun entry_event :: "event \<Rightarrow> bool" where
  "entry_event Shutdown = True"
| "entry_event (ArchCpuRestore c r) = True"
| "entry_event ArchCpuActivateVmm = True"
| "entry_event e = False"

fun init_event :: "event \<Rightarrow> bool" where
  "init_event ConfigCommit = False"
| "init_event Shutdown = False"
| "init_event (ArchCpuRestore c r) = False"
| "init_event ArchCpuActivateVmm = False"
| "init_event e = True"

text \<open>
  \<open>adds K s s'\<close>: the trace of \<open>s'\<close> extends that of \<open>s\<close> by events in \<open>K\<close>.
  \<open>stores s s'\<close>: from \<open>s\<close> to \<open>s'\<close> some values were stored in \<open>error\<close>, all of them 0
  except possibly the last one, which is the value of \<open>error\<close> in \<open>s'\<close>.
\<close>

definition adds :: "(event \<Rightarrow> bool) \<Rightarrow> globals \<Rightarrow> globals \<Rightarrow> bool" where
  "adds K s s' \<longleftrightarrow> (\<exists>evs. trace s' = trace s @ evs \<and> (\<forall>e \<in> set evs. K e))"

definition stores :: "globals \<Rightarrow> globals \<Rightarrow> bool" where
  "stores s s' \<longleftrightarrow>
     (\<exists>vs. error_stores s' = error_stores s @ vs \<and> error s' = last (error s # vs)
        \<and> (\<forall>v \<in> set (butlast vs). v = 0))"

text \<open>
  What one call of \<open>cpu_init\<close> does to the shared variables: it either succeeds,
  leaving \<open>error\<close> alone and incrementing \<open>initialized_cpus\<close>, or fails, storing its
  error code once and leaving \<open>initialized_cpus\<close> alone. What one call of \<open>init_late\<close>
  does: it stores in \<open>error\<close> only, and it calls \<open>config_commit\<close> only when nothing
  failed.
\<close>

definition cpu_init_post :: "env \<Rightarrow> globals \<Rightarrow> globals \<Rightarrow> bool" where
  "cpu_init_post env s s' \<longleftrightarrow>
     init_lock s' = init_lock s \<and> master_cpu_id s' = master_cpu_id s \<and>
     entered_cpus s' = entered_cpus s \<and> activate s' = activate s \<and>
     adds init_event s s' \<and>
     ((error s' = error s \<and> error_stores s' = error_stores s \<and>
       initialized_cpus s' = initialized_cpus s + 1)
      \<or> ((error s' \<noteq> 0 \<or> error s' = - EINVAL env) \<and>
          error_stores s' = error_stores s @ [error s'] \<and>
          initialized_cpus s' = initialized_cpus s))"

definition late_post :: "env \<Rightarrow> globals \<Rightarrow> globals \<Rightarrow> bool" where
  "late_post env s s' \<longleftrightarrow>
     frame s' = frame s \<and> adds (\<lambda>e. \<not> entry_event e) s s' \<and> stores s s' \<and>
     (if ConfigCommit \<in> set (drop (length (trace s)) (trace s'))
      then error s' = 0 \<or> error s' = error s
      else error s' \<noteq> 0 \<or> error s' = - EINVAL env)"

text \<open>Counting the cores with a property.\<close>

definition cnt :: "(core \<Rightarrow> bool) \<Rightarrow> core list \<Rightarrow> nat" where
  "cnt P cs = length (filter P cs)"

definition incs :: "core \<Rightarrow> bool" where
  "incs c \<longleftrightarrow> in_cs (pc c)"

definition pastc :: "nat \<Rightarrow> core \<Rightarrow> bool" where
  "pastc k c \<longleftrightarrow> k \<le> rank (pc c)"

definition at :: "pc \<Rightarrow> core \<Rightarrow> bool" where
  "at p c \<longleftrightarrow> pc c = p"

text \<open>A master that is past its call of \<open>init_early\<close>, and one past its call of \<open>init_late\<close>.\<close>

definition elected :: "core \<Rightarrow> bool" where
  "elected c \<longleftrightarrow> master c \<and> 8 \<le> rank (pc c)"

definition committed :: "core \<Rightarrow> bool" where
  "committed c \<longleftrightarrow> master c \<and> 13 \<le> rank (pc c)"

text \<open>
  The stores to \<open>error\<close> so far: zeros, followed by the value of \<open>error\<close> when that is
  not zero.
\<close>

definition write_once :: "globals \<Rightarrow> bool" where
  "write_once s \<longleftrightarrow>
     (\<exists>k. error_stores s = replicate k 0 @ (if error s = 0 then [] else [error s]))"

text \<open>
  Core \<open>c\<close> has called \<^verbatim>\<open>arch_cpu_restore\<close> with its CPU id and the value of \<open>error\<close>, and
  when it is the master, it has called \<^verbatim>\<open>shutdown\<close> before.
\<close>

definition restored :: "globals \<Rightarrow> core \<Rightarrow> bool" where
  "restored s c \<longleftrightarrow>
     (\<exists>t1 t2. trace s = t1 @ ArchCpuRestore (arg_cpu_id c) (error s) # t2
        \<and> (master c \<longrightarrow> Shutdown \<in> set t1))"

text \<open>
  The invariants of the runs. \<open>inv1\<close>: the lock and the first counter; \<open>inv2\<close>: the
  election; \<open>inv3\<close>: the second counter, \<open>error\<close> and \<open>init_late\<close>; \<open>inv4\<close> with
  \<open>exit_ok\<close>: \<open>activate\<close> and the two ways out of \<^verbatim>\<open>entry\<close>; \<open>inv5\<close>: the value of
  \<^verbatim>\<open>master_cpu_id\<close>.
\<close>

definition inv1 :: "env \<Rightarrow> system \<Rightarrow> bool" where
  "inv1 env sys \<longleftrightarrow>
     length (cores sys) = unat (online_cpus (hypervisor_header env))
   \<and> (\<forall>j < length (cores sys). arg_cpu_id (cores sys ! j) \<noteq> INVALID_CPU_ID env)
   \<and> cnt incs (cores sys) = (if init_lock (shared sys) then 1 else 0)
   \<and> unat (entered_cpus (shared sys)) = cnt (pastc 3) (cores sys)
   \<and> (\<forall>j < length (cores sys). 5 \<le> rank (pc (cores sys ! j)) \<longrightarrow>
         entered_cpus (shared sys) = online_cpus (hypervisor_header env))"

definition inv2 :: "env \<Rightarrow> system \<Rightarrow> bool" where
  "inv2 env sys \<longleftrightarrow>
     (\<forall>j < length (cores sys). master (cores sys ! j) \<longrightarrow> 7 \<le> rank (pc (cores sys ! j)))
   \<and> (\<forall>j < length (cores sys). pc (cores sys ! j) = EarlyInit \<longrightarrow> master (cores sys ! j))
   \<and> cnt elected (cores sys) =
       (if master_cpu_id (shared sys) = INVALID_CPU_ID env then 0 else 1)
   \<and> (\<forall>j < length (cores sys). 8 \<le> rank (pc (cores sys ! j)) \<longrightarrow>
         master_cpu_id (shared sys) \<noteq> INVALID_CPU_ID env)
   \<and> cnt master (cores sys) \<le> 1
   \<and> cnt (at EarlyInit) (cores sys) + cnt elected (cores sys) = cnt master (cores sys)"

definition inv3 :: "env \<Rightarrow> system \<Rightarrow> bool" where
  "inv3 env sys \<longleftrightarrow>
     unat (initialized_cpus (shared sys)) \<le> cnt (pastc 9) (cores sys)
   \<and> (error (shared sys) = 0 \<longrightarrow>
        unat (initialized_cpus (shared sys)) = cnt (pastc 9) (cores sys))
   \<and> (error (shared sys) \<noteq> 0 \<longrightarrow> master_cpu_id (shared sys) \<noteq> INVALID_CPU_ID env)
   \<and> write_once (shared sys)
   \<and> (\<forall>j < length (cores sys). 11 \<le> rank (pc (cores sys ! j)) \<longrightarrow>
        error (shared sys) \<noteq> 0
        \<or> initialized_cpus (shared sys) = online_cpus (hypervisor_header env))
   \<and> (\<forall>j < length (cores sys).
        pc (cores sys ! j) = LateInit \<or> pc (cores sys ! j) = SetActivate \<longrightarrow>
        master (cores sys ! j))
   \<and> (\<forall>j < length (cores sys). pc (cores sys ! j) = LateInit \<longrightarrow>
        error (shared sys) = 0 \<and> ConfigCommit \<notin> set (trace (shared sys)))
   \<and> (ConfigCommit \<in> set (trace (shared sys)) \<longrightarrow>
        error (shared sys) = 0 \<and> 0 < cnt committed (cores sys))"

definition exit_ok :: "globals \<Rightarrow> core \<Rightarrow> bool" where
  "exit_ok s c \<longleftrightarrow>
     (pc c = SetActivate \<and> error s = 0 \<longrightarrow> ConfigCommit \<in> set (trace s))
   \<and> (15 \<le> rank (pc c) \<and> error s = 0 \<longrightarrow> activate s)
   \<and> (pc c = Activate \<or> pc c = Activated \<longrightarrow> error s = 0)
   \<and> (pc c = DoShutdown \<or> pc c = Restore \<or> pc c = Return \<longrightarrow> error s \<noteq> 0)
   \<and> (pc c = DoShutdown \<longrightarrow> master c)
   \<and> (\<forall>e. pc c = Returned e \<longrightarrow> e = error s \<and> e \<noteq> 0)
   \<and> (pc c = Return \<or> (\<exists>e. pc c = Returned e) \<longrightarrow> restored s c)
   \<and> (pc c = Restore \<and> master c \<longrightarrow> Shutdown \<in> set (trace s))"

definition inv4 :: "env \<Rightarrow> system \<Rightarrow> bool" where
  "inv4 env sys \<longleftrightarrow>
     (\<forall>j < length (cores sys). exit_ok (shared sys) (cores sys ! j))
   \<and> activate (shared sys) =
       (ConfigCommit \<in> set (trace (shared sys)) \<and> cnt (at SetActivate) (cores sys) = 0)
   \<and> (ArchCpuActivateVmm \<in> set (trace (shared sys)) \<longrightarrow> activate (shared sys))"

definition inv5 :: "env \<Rightarrow> system \<Rightarrow> bool" where
  "inv5 env sys \<longleftrightarrow>
     (\<forall>j < length (cores sys). elected (cores sys ! j) \<longrightarrow>
        master_cpu_id (shared sys) = arg_cpu_id (cores sys ! j))"

definition invs :: "env \<Rightarrow> system \<Rightarrow> bool" where
  "invs env sys \<longleftrightarrow> inv1 env sys \<and> inv2 env sys \<and> inv3 env sys \<and> inv4 env sys"

text \<open>
  The boots considered. As many cores call \<^verbatim>\<open>entry\<close> as the header announces in
  \<^verbatim>\<open>online_cpus\<close>: it is the number that both barriers (lines 241 and 258) wait for,
  the specification's expected total core count. No core has the CPU id
  \<^verbatim>\<open>INVALID_CPU_ID\<close>: that value is the one reserved to say that no CPU is the master
  (lines 30 and 246). And the error number \<^verbatim>\<open>EINVAL\<close>, a constant of the system headers,
  is not 0.
\<close>

definition wf_boot :: "env \<Rightarrow> (u32 \<times> per_cpu) list \<Rightarrow> bool" where
  "wf_boot env args \<longleftrightarrow>
     EINVAL env \<noteq> 0
   \<and> length args = unat (online_cpus (hypervisor_header env))
   \<and> (\<forall>a \<in> set args. fst a \<noteq> INVALID_CPU_ID env)"

text \<open>
  The steps that the cores still have before them, and a core that is not kept waiting:
  its next step is a step forward. A schedule is fair here when it is made of rounds
  in each of which every core gets a turn.
\<close>

definition remaining :: "system \<Rightarrow> nat" where
  "remaining sys = sum_list (map (\<lambda>c. 20 - rank (pc c)) (cores sys))"

definition enabled :: "env \<Rightarrow> system \<Rightarrow> nat \<Rightarrow> bool" where
  "enabled env sys i \<longleftrightarrow>
     i < length (cores sys) \<and>
     (\<forall>sys'. step env i sys = Some sys' \<longrightarrow> remaining sys' < remaining sys)"

section \<open>Late Global Init: the CPU count check\<close>

lemma fold_count_cpus:
  "fold (\<lambda>cpu n. n + 1) xs (k :: u32) = k + of_nat (length xs)"
  by (induction xs arbitrary: k) (simp_all add: algebra_simps)

text \<open>
  C7. When the number of online CPUs in the header differs from the number of CPUs in
  the CPU set of the root cell, \<open>init_late\<close> stores \<open>- EINVAL\<close> in \<open>error\<close> and changes
  nothing else: the trace is as before, so no unit was initialised and no region was
  mapped or registered. (The CPU set has fewer than \<open>2 ^ 32\<close> members, the range of
  the counter \<^verbatim>\<open>expected_cpus\<close>.)
\<close>

theorem init_late_cpu_count_mismatch:
  assumes "length (root_cell_cpu_set env) < 2 ^ 32"
    and "unat (online_cpus (hypervisor_header env)) \<noteq> length (root_cell_cpu_set env)"
  shows "init_late env s =
           s\<lparr>error := - EINVAL env, error_stores := error_stores s @ [- EINVAL env]\<rparr>
         \<and> trace (init_late env s) = trace s"
proof -
  have "online_cpus (hypervisor_header env) \<noteq> of_nat (length (root_cell_cpu_set env))"
    using assms by (auto simp: unat_of_nat)
  then show ?thesis
    by (simp add: init_late_def fold_count_cpus store_error_def trace_error_def)
qed

theorem init_late_cpu_count_mismatch_witness:
  "unat (online_cpus (hypervisor_header mismatch_env)) = 4
   \<and> length (root_cell_cpu_set mismatch_env) = 3
   \<and> init_late mismatch_env (globals0 mismatch_env) =
       (globals0 mismatch_env)\<lparr>error := - 22, error_stores := [- 22]\<rparr>
   \<and> trace (init_late mismatch_env (globals0 mismatch_env)) = []"
  using init_late_cpu_count_mismatch [of mismatch_env "globals0 mismatch_env"]
  by (simp add: mismatch_env_def example_env_def globals0_def)

section \<open>Per-Core Init with an invalid CPU id\<close>

text \<open>
  C8. When \<open>cpu_id_valid\<close> rejects the CPU id of the per-CPU structure, \<open>cpu_init\<close>
  prints its two messages and stores \<open>- EINVAL\<close> in \<open>error\<close>. Nothing else happens:
  the per-CPU structure is unchanged (no cell pointer, no page table fields), no call
  of the paging or architecture code is made, and \<open>initialized_cpus\<close> and
  \<open>entered_cpus\<close> keep their values.
\<close>

theorem cpu_init_invalid_cpu_id:
  assumes "\<not> cpu_id_valid env (public_cpu_id d)"
  shows "cpu_init env d s =
           (d, s\<lparr>error := - EINVAL env,
                 error_stores := error_stores s @ [- EINVAL env],
                 trace := trace s @ [Printk '' CPU %d... '', Printk ''FAILED'']\<rparr>)
         \<and> initialized_cpus (snd (cpu_init env d s)) = initialized_cpus s
         \<and> entered_cpus (snd (cpu_init env d s)) = entered_cpus s"
  using assms
  by (simp add: cpu_init_def cpu_init_failed_def store_error_def log_event_def)

theorem cpu_init_invalid_cpu_id_witness:
  "cpu_init example_env (example_per_cpu\<lparr>public_cpu_id := 7\<rparr>) (globals0 example_env) =
     (example_per_cpu\<lparr>public_cpu_id := 7\<rparr>,
      (globals0 example_env)\<lparr>error := - 22, error_stores := [- 22],
         trace := [Printk '' CPU %d... '', Printk ''FAILED'']\<rparr>)
   \<and> initialized_cpus
        (snd (cpu_init example_env (example_per_cpu\<lparr>public_cpu_id := 7\<rparr>) (globals0 example_env))) = 0
   \<and> entered_cpus
        (snd (cpu_init example_env (example_per_cpu\<lparr>public_cpu_id := 7\<rparr>) (globals0 example_env))) = 0"
  using cpu_init_invalid_cpu_id
    [of example_env "example_per_cpu\<lparr>public_cpu_id := 7\<rparr>" "globals0 example_env"]
  by (simp add: example_env_def example_per_cpu_def globals0_def)

section \<open>Late Global Init: units, regions and the commit\<close>

lemma frame_simps [simp]:
  "frame (store_error v s) = frame s"
  "frame (log_event e s) = frame s"
  by (simp_all add: frame_def store_error_def log_event_def)

lemma frame_fields:
  assumes "frame s' = frame s"
  shows "init_lock s' = init_lock s" "master_cpu_id s' = master_cpu_id s"
    "entered_cpus s' = entered_cpus s" "initialized_cpus s' = initialized_cpus s"
    "activate s' = activate s" "system_config s' = system_config s"
    "virtual_console s' = virtual_console s" "root_cell_config s' = root_cell_config s"
proof -
  have "f (frame s') = f (frame s)" for f :: "globals \<Rightarrow> 'a" using assms by simp
  from this[of init_lock] this[of master_cpu_id] this[of entered_cpus] this[of initialized_cpus]
    this[of activate] this[of system_config] this[of virtual_console] this[of root_cell_config]
  show "init_lock s' = init_lock s" "master_cpu_id s' = master_cpu_id s"
    "entered_cpus s' = entered_cpus s" "initialized_cpus s' = initialized_cpus s"
    "activate s' = activate s" "system_config s' = system_config s"
    "virtual_console s' = virtual_console s" "root_cell_config s' = root_cell_config s"
    by (simp_all add: frame_def)
qed

lemma store_log_simps [simp]:
  "error (store_error v s) = v"
  "error_stores (store_error v s) = error_stores s @ [v]"
  "trace (store_error v s) = trace s"
  "error (log_event e s) = error s"
  "error_stores (log_event e s) = error_stores s"
  "trace (log_event e s) = trace s @ [e]"
  by (simp_all add: store_error_def log_event_def)

lemma init_units_Inr:
  "init_units env us s = Inr s' \<Longrightarrow>
     frame s' = frame s \<and> trace s' = trace s @ unit_events us \<and>
     error_stores s' = error_stores s @ replicate (length us) 0 \<and>
     error s' = (if us = [] then error s else 0)"
  by (induction us arbitrary: s)
     (auto simp: Let_def unit_events_def replicate_append_same split: if_splits)

lemma init_units_Inl:
  "init_units env us s = Inl s' \<Longrightarrow>
     frame s' = frame s \<and> error s' \<noteq> 0 \<and>
     (\<exists>pre u post. us = pre @ u # post \<and>
        trace s' = trace s @ unit_events pre @ [Printk ''Initializing unit: %s'', UnitInit u (error s')] \<and>
        error_stores s' = error_stores s @ replicate (length pre) 0 @ [error s'])"
proof (induction us arbitrary: s)
  case Nil then show ?case by simp
next
  case (Cons a us)
  let ?s1 = "log_event (Printk ''Initializing unit: %s'') s"
  let ?r = "unit_init (ext env) (trace ?s1) a"
  let ?s2 = "store_error ?r (log_event (UnitInit a ?r) ?s1)"
  show ?case
  proof (cases "?r = 0")
    case True
    then have "init_units env us ?s2 = Inl s'" using Cons.prems by (simp add: Let_def)
    from Cons.IH[OF this] obtain pre u post where
      *: "frame s' = frame s" "error s' \<noteq> 0" "us = pre @ u # post"
         "trace s' = trace ?s2 @ unit_events pre @ [Printk ''Initializing unit: %s'', UnitInit u (error s')]"
         "error_stores s' = error_stores ?s2 @ replicate (length pre) 0 @ [error s']" by auto
    have "a # us = (a # pre) @ u # post" using * by simp
    moreover have "trace s' = trace s @ unit_events (a # pre) @ [Printk ''Initializing unit: %s'', UnitInit u (error s')]"
      using * True by (simp add: unit_events_def)
    moreover have "error_stores s' = error_stores s @ replicate (length (a # pre)) 0 @ [error s']"
      using * True by (simp add: replicate_append_same)
    ultimately show ?thesis using * by blast
  next
    case False
    then have s': "s' = ?s2" using Cons.prems by (simp add: Let_def)
    have "a # us = [] @ a # us" by simp
    moreover have "trace s' = trace s @ unit_events [] @ [Printk ''Initializing unit: %s'', UnitInit a (error s')]"
      using s' by (simp add: unit_events_def)
    moreover have "error_stores s' = error_stores s @ replicate (length ([] :: string list)) 0 @ [error s']"
      using s' by simp
    moreover have "frame s' = frame s" "error s' \<noteq> 0" using s' False by simp_all
    ultimately show ?thesis by blast
  qed
qed

lemma map_mem_regions_Inr:
  "map_mem_regions env ms s = Inr s' \<Longrightarrow>
     frame s' = frame s \<and> trace s' = trace s @ map (\<lambda>m. region_call env m 0) ms \<and>
     error_stores s' = error_stores s @ replicate (length ms) 0 \<and>
     error s' = (if ms = [] then error s else 0)"
  by (induction ms arbitrary: s)
     (auto simp: Let_def region_call_def replicate_append_same split: if_splits)

lemma map_mem_regions_Inl:
  "map_mem_regions env ms s = Inl s' \<Longrightarrow>
     frame s' = frame s \<and> error s' \<noteq> 0 \<and>
     (\<exists>pre m post. ms = pre @ m # post \<and>
        trace s' = trace s @ map (\<lambda>m. region_call env m 0) pre @ [region_call env m (error s')] \<and>
        error_stores s' = error_stores s @ replicate (length pre) 0 @ [error s'])"
proof (induction ms arbitrary: s)
  case Nil then show ?case by simp
next
  case (Cons a ms)
  let ?r = "if JAILHOUSE_MEMORY_IS_SUBPAGE env a then mmio_subpage_register (ext env) (trace s) a
            else arch_map_memory_region (ext env) (trace s) a"
  let ?s1 = "store_error ?r (log_event (region_call env a ?r) s)"
  have step: "map_mem_regions env (a # ms) s = (if ?r \<noteq> 0 then Inl ?s1 else map_mem_regions env ms ?s1)"
    by (simp add: region_call_def Let_def)
  show ?case
  proof (cases "?r = 0")
    case True
    then have "map_mem_regions env ms ?s1 = Inl s'"
      using Cons.prems unfolding step by simp
    from Cons.IH[OF this] obtain pre m post where
      *: "frame s' = frame s" "error s' \<noteq> 0" "ms = pre @ m # post"
         "trace s' = trace ?s1 @ map (\<lambda>m. region_call env m 0) pre @ [region_call env m (error s')]"
         "error_stores s' = error_stores ?s1 @ replicate (length pre) 0 @ [error s']" by auto
    have "a # ms = (a # pre) @ m # post" using * by simp
    moreover have "trace s' = trace s @ map (\<lambda>m. region_call env m 0) (a # pre) @ [region_call env m (error s')]"
      using * True by simp
    moreover have "error_stores s' = error_stores s @ replicate (length (a # pre)) 0 @ [error s']"
      using * True by (simp add: replicate_append_same)
    ultimately show ?thesis using * by blast
  next
    case False
    then have s': "s' = ?s1" using Cons.prems unfolding step by simp
    have "a # ms = [] @ a # ms" by simp
    moreover have "trace s' = trace s @ map (\<lambda>m. region_call env m 0) [] @ [region_call env a (error s')]"
      using s' by simp
    moreover have "error_stores s' = error_stores s @ replicate (length ([] :: jailhouse_memory list)) 0 @ [error s']"
      using s' by simp
    moreover have "frame s' = frame s" "error s' \<noteq> 0" using s' False by simp_all
    ultimately show ?thesis by blast
  qed
qed

lemma filter_unit_events [simp]:
  "filter is_unit_event (unit_events us) = map (\<lambda>u. UnitInit u 0) us"
  "filter is_region_event (unit_events us) = []"
  "ConfigCommit \<notin> set (unit_events us)"
  by (induction us) (simp_all add: unit_events_def)

lemma unit_events_append [simp]: "unit_events (xs @ ys) = unit_events xs @ unit_events ys"
  by (simp add: unit_events_def)

lemma region_call_simps [simp]:
  "is_region_event (region_call env m r)"
  "\<not> is_unit_event (region_call env m r)"
  "event_result (region_call env m r) = r"
  "region_call env m r \<noteq> ConfigCommit"
  "ConfigCommit \<noteq> region_call env m r"
  "(region_call env m r = region_call env m r') = (r = r')"
  by (simp_all add: region_call_def)

lemma filter_region_calls [simp]:
  "filter is_region_event (map (\<lambda>m. region_call env m r) ms) = map (\<lambda>m. region_call env m r) ms"
  "filter is_unit_event (map (\<lambda>m. region_call env m r) ms) = []"
  "ConfigCommit \<notin> set (map (\<lambda>m. region_call env m r) ms)"
  by (induction ms) simp_all

lemma init_late_events_cases:
  fixes env s
  defines "evs \<equiv> init_late_events env s"
    and "regions \<equiv> mem_regions (config_at env (root_cell_config s))"
    and "count_ok \<equiv> online_cpus (hypervisor_header env) = of_nat (length (root_cell_cpu_set env))"
  shows "(\<not> count_ok \<and> evs = [])
    \<or> (count_ok \<and> (\<exists>pre u post r. units env = pre @ u # post \<and> r \<noteq> 0 \<and>
          evs = unit_events pre @ [Printk ''Initializing unit: %s'', UnitInit u r]))
    \<or> (count_ok \<and> (\<exists>pre m post r. regions = pre @ m # post \<and> r \<noteq> 0 \<and>
          evs = unit_events (units env) @ map (\<lambda>m. region_call env m 0) pre @ [region_call env m r]))
    \<or> (count_ok \<and> evs = unit_events (units env) @ map (\<lambda>m. region_call env m 0) regions @
          (if CONFIG_PAGE_TABLE_PROTECTION env then [PagingSetFlag] else []) @
          [ConfigCommit, PagingDumpStats ''after late setup''])"
proof (cases count_ok)
  case False
  then show ?thesis
    by (simp add: evs_def init_late_events_def init_late_def count_ok_def fold_count_cpus trace_error_def)
next
  case True
  then have il: "init_late env s = (case init_units env (units env) s of
             Inl s1 \<Rightarrow> s1
           | Inr s1 \<Rightarrow>
               (case map_mem_regions env
                       (mem_regions (config_at env (root_cell_config s1))) s1 of
                  Inl s2 \<Rightarrow> s2
                | Inr s2 \<Rightarrow>
                    (let s3 = (if CONFIG_PAGE_TABLE_PROTECTION env
                               then log_event PagingSetFlag s2 else s2);
                         s4 = log_event ConfigCommit s3
                     in log_event (PagingDumpStats ''after late setup'') s4)))"
    by (simp add: init_late_def count_ok_def fold_count_cpus)
  show ?thesis
  proof (cases "init_units env (units env) s")
    case (Inl s1)
    from init_units_Inl[OF Inl] obtain pre u post where
      *: "error s1 \<noteq> 0" "units env = pre @ u # post"
         "trace s1 = trace s @ unit_events pre @ [Printk ''Initializing unit: %s'', UnitInit u (error s1)]"
      by blast
    have "evs = unit_events pre @ [Printk ''Initializing unit: %s'', UnitInit u (error s1)]"
      using il Inl * by (simp add: evs_def init_late_events_def)
    with * True show ?thesis by blast
  next
    case (Inr s1)
    from init_units_Inr[OF Inr] have s1: "frame s1 = frame s" "trace s1 = trace s @ unit_events (units env)"
      by simp_all
    have rc: "root_cell_config s1 = root_cell_config s" using frame_fields(8)[OF s1(1)] .
    show ?thesis
    proof (cases "map_mem_regions env regions s1")
      case (Inl s2)
      from map_mem_regions_Inl[OF Inl] obtain pre m post where
        *: "error s2 \<noteq> 0" "regions = pre @ m # post"
           "trace s2 = trace s1 @ map (\<lambda>m. region_call env m 0) pre @ [region_call env m (error s2)]"
        by blast
      have "evs = unit_events (units env) @ map (\<lambda>m. region_call env m 0) pre @ [region_call env m (error s2)]"
        using il Inr Inl * s1 rc by (simp add: evs_def init_late_events_def regions_def)
      with * True show ?thesis by blast
    next
      case Inr2: (Inr s2)
      from map_mem_regions_Inr[OF Inr2] have
        "trace s2 = trace s1 @ map (\<lambda>m. region_call env m 0) regions" by simp
      then have "evs = unit_events (units env) @ map (\<lambda>m. region_call env m 0) regions @
          (if CONFIG_PAGE_TABLE_PROTECTION env then [PagingSetFlag] else []) @
          [ConfigCommit, PagingDumpStats ''after late setup'']"
        using il Inr Inr2 s1 rc by (simp add: evs_def init_late_events_def regions_def Let_def)
      with True show ?thesis by blast
    qed
  qed
qed

lemma commit_not_region_call [simp]: "ConfigCommit \<notin> (\<lambda>m. region_call env m r) ` A"
  by auto

lemma zip_region_calls_same [simp]:
  "map (\<lambda>(m, r). region_call env m r) (zip xs (replicate (length xs) r)) =
     map (\<lambda>m. region_call env m r) xs"
  by (induction xs) simp_all

lemma zip_region_calls:
  "map (\<lambda>(m, r). region_call env m r) (zip (xs @ ys) (replicate (length xs) 0)) =
     map (\<lambda>m. region_call env m 0) xs"
  "map (\<lambda>(m, r). region_call env m r) (zip (xs @ m # ys) (replicate (length xs) 0 @ [r])) =
     map (\<lambda>m. region_call env m 0) xs @ [region_call env m r]"
  by (induction xs) simp_all

lemma results_region_calls:
  "map event_result (map (\<lambda>m. region_call env m r) xs) = replicate (length xs) r"
  "map event_result (map (\<lambda>m. region_call env m 0) xs @ [region_call env m r]) =
     replicate (length xs) 0 @ [r]"
  by (induction xs) simp_all

text \<open>The recorded results are those of the callees.\<close>

lemma faithful_append:
  "faithful env h (xs @ ys) = (faithful env h xs \<and> faithful env (h @ xs) ys)"
  by (induction xs arbitrary: h) simp_all

lemma follows_refl [simp]: "follows env s s"
  by (simp add: follows_def)

lemma follows_trans: "follows env s s1 \<Longrightarrow> follows env s1 s2 \<Longrightarrow> follows env s s2"
  by (auto simp: follows_def faithful_append)

lemma follows_log_I:
  "follows env s s' \<Longrightarrow> event_result e = callee_result env (trace s') e \<Longrightarrow>
     follows env s (log_event e s')"
  by (auto simp: follows_def faithful_append)

lemma follows_store_I: "follows env s s' \<Longrightarrow> follows env s (store_error v s')"
  by (auto simp: follows_def)

lemma follows_call:
  "event_result e = callee_result env (trace s) e \<Longrightarrow>
     follows env s (store_error v (log_event e s))"
  by (simp add: follows_store_I follows_log_I)

lemma init_units_follows: "follows env s (result_state (init_units env us s))"
proof (induction us arbitrary: s)
  case Nil then show ?case by (simp add: result_state_def)
next
  case (Cons a us)
  let ?s1 = "log_event (Printk ''Initializing unit: %s'') s"
  let ?r = "unit_init (ext env) (trace ?s1) a"
  let ?s2 = "store_error ?r (log_event (UnitInit a ?r) ?s1)"
  have 1: "follows env s ?s1" by (simp add: follows_log_I)
  have 2: "follows env ?s1 ?s2" by (rule follows_call) simp
  note 12 = follows_trans[OF 1 2]
  show ?case
  proof (cases "?r = 0")
    case True
    then have "init_units env (a # us) s = init_units env us ?s2" by (simp add: Let_def)
    then show ?thesis using follows_trans[OF 12 Cons.IH[of ?s2]] by simp
  next
    case False
    then have "init_units env (a # us) s = Inl ?s2" by (simp add: Let_def)
    then show ?thesis using 12 by (simp add: result_state_def)
  qed
qed

lemma map_mem_regions_follows: "follows env s (result_state (map_mem_regions env ms s))"
proof (induction ms arbitrary: s)
  case Nil then show ?case by (simp add: result_state_def)
next
  case (Cons a ms)
  let ?r = "if JAILHOUSE_MEMORY_IS_SUBPAGE env a then mmio_subpage_register (ext env) (trace s) a
            else arch_map_memory_region (ext env) (trace s) a"
  let ?s1 = "store_error ?r (log_event (region_call env a ?r) s)"
  have step: "map_mem_regions env (a # ms) s =
      (if ?r \<noteq> 0 then Inl ?s1 else map_mem_regions env ms ?s1)"
    by (simp add: region_call_def Let_def)
  have 1: "follows env s ?s1" by (rule follows_call) (simp add: region_call_def)
  show ?case
  proof (cases "?r = 0")
    case True
    then show ?thesis unfolding step using follows_trans[OF 1 Cons.IH[of ?s1]] by simp
  next
    case False
    then show ?thesis unfolding step using 1 by (simp add: result_state_def)
  qed
qed

lemma follows_same_trace: "trace s' = trace s \<Longrightarrow> follows env s s'"
  by (simp add: follows_def)

lemma init_late_follows: "follows env s (init_late env s)"
proof -
  let ?u = "init_units env (units env) s"
  note u = init_units_follows[of env s "units env"]
  show ?thesis
  proof (cases "online_cpus (hypervisor_header env) \<noteq>
                  fold (\<lambda>cpu n. n + 1) (root_cell_cpu_set env) (0 :: u32)")
    case True
    then show ?thesis by (simp add: init_late_def follows_store_I)
  next
    case False
    show ?thesis
    proof (cases ?u)
      case (Inl s1)
      then show ?thesis using u False by (simp add: init_late_def result_state_def)
    next
      case (Inr s1)
      let ?m = "map_mem_regions env (mem_regions (config_at env (root_cell_config s1))) s1"
      have s1: "follows env s s1" using u Inr by (simp add: result_state_def)
      note m = follows_trans[OF s1 map_mem_regions_follows[of env s1]]
      show ?thesis
      proof (cases ?m)
        case (Inl s2)
        then show ?thesis using m[of "mem_regions (config_at env (root_cell_config s1))"]
            False Inr by (simp add: init_late_def result_state_def)
      next
        case Inr2: (Inr s2)
        have s2: "follows env s s2"
          using m[of "mem_regions (config_at env (root_cell_config s1))"] Inr2
          by (simp add: result_state_def)
        then show ?thesis using False Inr Inr2
          by (simp add: init_late_def Let_def follows_log_I)
      qed
    qed
  qed
qed

lemma init_late_faithful: "faithful env (trace s) (init_late_events env s)"
proof -
  from init_late_follows[of env s] obtain evs where
    "trace (init_late env s) = trace s @ evs" "faithful env (trace s) evs"
    by (auto simp: follows_def)
  then show ?thesis by (simp add: init_late_events_def)
qed

text \<open>
  C9. Every event that \<open>init_late\<close> adds records what its callee returned at that point
  (\<open>faithful\<close>: the results are those of \<open>unit_init\<close>, \<open>mmio_subpage_register\<close> and
  \<open>arch_map_memory_region\<close> of \<open>ext env\<close>). The region calls are, in order, the calls that
  the specification prescribes on an initial part of the root cell's memory regions
  (sub-page regions are registered, the others are mapped). Every call but the last one
  of \<open>init_late\<close> returned 0: a failing unit or region ends it, nothing is called after
  it. When the CPU count matches, every unit initialiser returned 0 and no region call
  failed, every region has been processed. And \<open>config_commit\<close> is called exactly when
  the CPU count matches, every unit initialiser was called and returned 0, and every
  region call was made and returned 0.
\<close>

theorem init_late_regions_and_commit:
  "let evs = init_late_events env s;
       regions = mem_regions (config_at env (root_cell_config s));
       revs = filter is_region_event evs;
       count_ok = (online_cpus (hypervisor_header env) = of_nat (length (root_cell_cpu_set env)));
       units_ok = (filter is_unit_event evs = map (\<lambda>u. UnitInit u 0) (units env))
   in faithful env (trace s) evs
      \<and> revs = map (\<lambda>(m, r). region_call env m r) (zip regions (map event_result revs))
      \<and> (\<forall>e \<in> set (butlast evs). event_result e = 0)
      \<and> (count_ok \<and> units_ok \<and> (\<forall>r \<in> set (map event_result revs). r = 0)
           \<longrightarrow> revs = map (\<lambda>m. region_call env m 0) regions)
      \<and> (ConfigCommit \<in> set evs \<longleftrightarrow>
           count_ok \<and> units_ok \<and> revs = map (\<lambda>m. region_call env m 0) regions)"
proof -
  define evs where "evs = init_late_events env s"
  define regions where "regions = mem_regions (config_at env (root_cell_config s))"
  define count_ok where "count_ok = (online_cpus (hypervisor_header env) = of_nat (length (root_cell_cpu_set env)))"
  have u0: "\<forall>e \<in> set (unit_events us). event_result e = 0" for us
    by (induction us) (simp_all add: unit_events_def)
  from init_late_events_cases[of env s]
  consider (a) "\<not> count_ok" "evs = []"
    | (b) pre u post r where "count_ok" "units env = pre @ u # post" "r \<noteq> 0"
          "evs = (unit_events pre @ [Printk ''Initializing unit: %s'']) @ [UnitInit u r]"
    | (c) pre m post r where "count_ok" "regions = pre @ m # post" "r \<noteq> 0"
          "evs = (unit_events (units env) @ map (\<lambda>m. region_call env m 0) pre) @ [region_call env m r]"
    | (d) "count_ok" "evs = unit_events (units env) @ map (\<lambda>m. region_call env m 0) regions @
          (if CONFIG_PAGE_TABLE_PROTECTION env then [PagingSetFlag] else []) @
          [ConfigCommit, PagingDumpStats ''after late setup'']"
    unfolding evs_def regions_def count_ok_def by auto
  then have "filter is_region_event evs = map (\<lambda>(m, r). region_call env m r) (zip regions (map event_result (filter is_region_event evs)))
      \<and> (\<forall>e \<in> set (butlast evs). event_result e = 0)
      \<and> (count_ok \<and> filter is_unit_event evs = map (\<lambda>u. UnitInit u 0) (units env) \<and> (\<forall>r \<in> set (map event_result (filter is_region_event evs)). r = 0)
           \<longrightarrow> filter is_region_event evs = map (\<lambda>m. region_call env m 0) regions)
      \<and> (ConfigCommit \<in> set evs \<longleftrightarrow>
           count_ok \<and> filter is_unit_event evs = map (\<lambda>u. UnitInit u 0) (units env) \<and> filter is_region_event evs = map (\<lambda>m. region_call env m 0) regions)"
  proof cases
    case a then show ?thesis by simp
  next
    case b
    have bl: "butlast evs = unit_events pre @ [Printk ''Initializing unit: %s'']"
      unfolding b(4) by (simp only: butlast_snoc)
    have 2: "\<forall>e \<in> set (butlast evs). event_result e = 0" unfolding bl using u0[of pre] by simp
    have rest: "filter is_region_event evs = []" "filter is_unit_event evs \<noteq> map (\<lambda>u. UnitInit u 0) (units env)"
      "ConfigCommit \<notin> set evs"
      using b by simp_all
    show ?thesis using 2 rest by simp
  next
    case c
    have f: "filter is_region_event evs = map (\<lambda>m. region_call env m 0) pre @ [region_call env m r]"
      and u: "filter is_unit_event evs = map (\<lambda>u. UnitInit u 0) (units env)"
      and cc: "ConfigCommit \<notin> set evs"
      using c by simp_all
    have bl: "butlast evs = unit_events (units env) @ map (\<lambda>m. region_call env m 0) pre"
      unfolding c(4) by (simp only: butlast_snoc)
    have 2: "\<forall>e \<in> set (butlast evs). event_result e = 0"
      unfolding bl using u0[of "units env"] by auto
    have rest: "filter is_region_event evs = map (\<lambda>(m, r). region_call env m r) (zip regions (map event_result (filter is_region_event evs)))
      \<and> (count_ok \<and> filter is_unit_event evs = map (\<lambda>u. UnitInit u 0) (units env) \<and> (\<forall>r \<in> set (map event_result (filter is_region_event evs)). r = 0)
           \<longrightarrow> filter is_region_event evs = map (\<lambda>m. region_call env m 0) regions)
      \<and> (ConfigCommit \<in> set evs \<longleftrightarrow>
           count_ok \<and> filter is_unit_event evs = map (\<lambda>u. UnitInit u 0) (units env) \<and> filter is_region_event evs = map (\<lambda>m. region_call env m 0) regions)"
      unfolding f results_region_calls using c(2,3) cc
      by (simp add: zip_region_calls)
    show ?thesis using 2 rest by blast
  next
    case d
    have f: "filter is_region_event evs = map (\<lambda>m. region_call env m 0) regions"
      and u: "filter is_unit_event evs = map (\<lambda>u. UnitInit u 0) (units env)"
      and cc: "ConfigCommit \<in> set evs"
      using d by simp_all
    have "\<forall>e \<in> set evs. event_result e = 0" unfolding d(2) using u0[of "units env"] by auto
    then have 2: "\<forall>e \<in> set (butlast evs). event_result e = 0" by (meson in_set_butlastD)
    have 1: "filter is_region_event evs = map (\<lambda>(m, r). region_call env m r) (zip regions (map event_result (filter is_region_event evs)))"
      unfolding f results_region_calls using zip_region_calls(1)[of env regions "[]"] by simp
    show ?thesis using 1 2 f u cc d(1) by blast
  qed
  moreover have "faithful env (trace s) evs" unfolding evs_def by (rule init_late_faithful)
  ultimately show ?thesis
    unfolding Let_def evs_def regions_def count_ok_def by blast
qed

text \<open>
  On the example machine all calls succeed and the configuration is committed. When
  \<open>arch_map_memory_region\<close> fails on the first region, when \<open>mmio_subpage_register\<close>
  fails on the second, and when the unit initialiser fails, the failing call is the last
  one and nothing is committed.
\<close>

theorem init_late_regions_and_commit_witness:
  "ConfigCommit \<in> set (init_late_events example_env (globals0 example_env))
   \<and> filter is_region_event (init_late_events example_env (globals0 example_env)) =
       [ArchMapMemoryRegion
          \<lparr>phys_start = 0x100000, virt_start = 0x100000, mem_size = 0x2000, mem_flags = 3\<rparr> 0,
        MmioSubpageRegister
          \<lparr>phys_start = 0x200000, virt_start = 0x200080, mem_size = 0x10, mem_flags = 3\<rparr> 0]
   \<and> ConfigCommit \<notin> set (init_late_events failing_map_env (globals0 failing_map_env))
   \<and> filter is_region_event (init_late_events failing_map_env (globals0 failing_map_env)) =
       [ArchMapMemoryRegion
          \<lparr>phys_start = 0x100000, virt_start = 0x100000, mem_size = 0x2000, mem_flags = 3\<rparr> (- 12)]
   \<and> ConfigCommit \<notin> set (init_late_events failing_subpage_env (globals0 failing_subpage_env))
   \<and> filter is_region_event
        (init_late_events failing_subpage_env (globals0 failing_subpage_env)) =
       [ArchMapMemoryRegion
          \<lparr>phys_start = 0x100000, virt_start = 0x100000, mem_size = 0x2000, mem_flags = 3\<rparr> 0,
        MmioSubpageRegister
          \<lparr>phys_start = 0x200000, virt_start = 0x200080, mem_size = 0x10, mem_flags = 3\<rparr> (- 16)]
   \<and> ConfigCommit \<notin> set (init_late_events failing_unit_env (globals0 failing_unit_env))
   \<and> init_late_events failing_unit_env (globals0 failing_unit_env) =
       [Printk ''Initializing unit: %s'', UnitInit ''unit0'' (- 19)]"
proof -
  let ?ok = "init_late_events example_env (globals0 example_env)"
  let ?fm = "init_late_events failing_map_env (globals0 failing_map_env)"
  let ?fs = "init_late_events failing_subpage_env (globals0 failing_subpage_env)"
  let ?fu = "init_late_events failing_unit_env (globals0 failing_unit_env)"
  note ok = init_late_regions_and_commit
      [of example_env "globals0 example_env", unfolded Let_def]
  note fm = init_late_regions_and_commit
      [of failing_map_env "globals0 failing_map_env", unfolded Let_def]
  note fs = init_late_regions_and_commit
      [of failing_subpage_env "globals0 failing_subpage_env", unfolded Let_def]
  note fu = init_late_regions_and_commit
      [of failing_unit_env "globals0 failing_unit_env", unfolded Let_def]
  have c: "online_cpus (hypervisor_header example_env) =
      of_nat (length (root_cell_cpu_set example_env))"
    by code_simp
  have u: "filter is_unit_event ?ok = map (\<lambda>u. UnitInit u 0) (units example_env)"
    by code_simp
  have z: "\<forall>r \<in> set (map event_result (filter is_region_event ?ok)). r = 0"
    by code_simp
  from ok c u z have r: "filter is_region_event ?ok =
      map (\<lambda>m. region_call example_env m 0)
        (mem_regions (config_at example_env (root_cell_config (globals0 example_env))))"
    by blast
  from ok c u r have 1: "ConfigCommit \<in> set ?ok" by blast
  have 2: "filter is_region_event ?ok =
       [ArchMapMemoryRegion
          \<lparr>phys_start = 0x100000, virt_start = 0x100000, mem_size = 0x2000, mem_flags = 3\<rparr> 0,
        MmioSubpageRegister
          \<lparr>phys_start = 0x200000, virt_start = 0x200080, mem_size = 0x10, mem_flags = 3\<rparr> 0]"
    unfolding r by code_simp
  have nm: "filter is_region_event ?fm \<noteq>
      map (\<lambda>m. region_call failing_map_env m 0)
        (mem_regions (config_at failing_map_env (root_cell_config (globals0 failing_map_env))))"
    by code_simp
  from fm nm have 3: "ConfigCommit \<notin> set ?fm" by blast
  have 4: "filter is_region_event ?fm =
       [ArchMapMemoryRegion
          \<lparr>phys_start = 0x100000, virt_start = 0x100000, mem_size = 0x2000, mem_flags = 3\<rparr> (- 12)]"
    by code_simp
  have ns: "filter is_region_event ?fs \<noteq>
      map (\<lambda>m. region_call failing_subpage_env m 0)
        (mem_regions (config_at failing_subpage_env
           (root_cell_config (globals0 failing_subpage_env))))"
    by code_simp
  from fs ns have 5: "ConfigCommit \<notin> set ?fs" by blast
  have 6: "filter is_region_event ?fs =
       [ArchMapMemoryRegion
          \<lparr>phys_start = 0x100000, virt_start = 0x100000, mem_size = 0x2000, mem_flags = 3\<rparr> 0,
        MmioSubpageRegister
          \<lparr>phys_start = 0x200000, virt_start = 0x200080, mem_size = 0x10, mem_flags = 3\<rparr> (- 16)]"
    by code_simp
  have nu: "filter is_unit_event ?fu \<noteq> map (\<lambda>u. UnitInit u 0) (units failing_unit_env)"
    by code_simp
  from fu nu have 7: "ConfigCommit \<notin> set ?fu" by blast
  have 8: "?fu = [Printk ''Initializing unit: %s'', UnitInit ''unit0'' (- 19)]"
    by code_simp
  show ?thesis using 1 2 3 4 5 6 7 8 by blast
qed

section \<open>Early Global Init: the pages of the hypervisor region\<close>

lemma ceil_pages: "0 < p \<Longrightarrow> (k * p < s) = (k < (s + p - 1) div (p::nat))"
proof -
  assume p: "0 < p"
  have "(k < (s + p - 1) div p) = (Suc k \<le> (s + p - 1) div p)" by auto
  also have "\<dots> = (Suc k * p \<le> s + p - 1)" using p by (simp add: less_eq_div_iff_mult_less_eq)
  also have "\<dots> = (k * p < s)" using p by (cases p) auto
  finally show ?thesis by simp
qed

lemma pages_cover: "0 < p \<Longrightarrow> s \<le> ((s + p - 1) div p) * (p::nat)"
  using ceil_pages[of p "(s + p - 1) div p" s] by (meson linorder_not_less order_less_irrefl)

lemma unat_page_addr:
  fixes start P :: u64
  assumes "unat start + k * unat P < 2 ^ 64"
  shows "unat (start + of_nat k * P) = unat start + k * unat P"
proof -
  have "start + of_nat k * P = of_nat (unat start + k * unat P)" by simp
  then show ?thesis using assms by (simp only: unat_of_nat) simp
qed

lemma map_hv_pages_result:
  fixes env :: env and start sz :: u64
  defines "P \<equiv> PAGE_SIZE env"
  defines "n \<equiv> (unat sz + unat P - 1) div unat P"
  assumes P0: "P \<noteq> 0"
    and nowrap: "unat start + n * unat P < 2 ^ 64"
    and k: "k \<le> n"
  shows "\<exists>s'. frame s' = frame s \<and>
     ((map_hv_pages env (start + sz) (start + of_nat k * P) s = Some (Inr s') \<and>
        trace s' = trace s @ map (\<lambda>j. ArchMapMemoryRegion (hv_slot env (virtual_console s) start j) 0) [k..<n] \<and>
        error_stores s' = error_stores s @ replicate (n - k) 0 \<and>
        error s' = (if k = n then error s else 0))
      \<or> (map_hv_pages env (start + sz) (start + of_nat k * P) s = Some (Inl s') \<and>
        error s' \<noteq> 0 \<and>
        (\<exists>j. k \<le> j \<and> j < n \<and>
           trace s' = trace s @ map (\<lambda>j. ArchMapMemoryRegion (hv_slot env (virtual_console s) start j) 0) [k..<j]
                        @ [ArchMapMemoryRegion (hv_slot env (virtual_console s) start j) (error s')] \<and>
           error_stores s' = error_stores s @ replicate (j - k) 0 @ [error s'])))"
  using k
proof (induction "n - k" arbitrary: k s)
  case 0
  then have kn: "k = n" by simp
  have p: "0 < unat P" using P0 by (simp add: unat_gt_0)
  have szle: "unat sz \<le> n * unat P" unfolding n_def using pages_cover[OF p] .
  have e: "unat (start + sz) = unat start + unat sz"
    using nowrap szle by (simp add: unat_word_ariths)
  have v: "unat (start + of_nat n * P) = unat start + n * unat P"
    using nowrap by (rule unat_page_addr)
  have "\<not> start + of_nat n * P < start + sz"
    using e v szle by (simp add: word_less_nat_alt)
  then have "map_hv_pages env (start + sz) (start + of_nat k * P) s = Some (Inr s)"
    using kn by (subst map_hv_pages.simps) simp
  then show ?case using kn by auto
next
  case (Suc d)
  then have kn: "k < n" and d: "d = n - Suc k" by simp_all
  have p: "0 < unat P" using P0 by (simp add: unat_gt_0)
  have szle: "unat sz \<le> n * unat P" unfolding n_def using pages_cover[OF p] .
  have e: "unat (start + sz) = unat start + unat sz"
    using nowrap szle by (simp add: unat_word_ariths)
  have "k * unat P \<le> n * unat P" using kn by (intro mult_le_mono1) simp
  then have "unat start + k * unat P < 2 ^ 64" using nowrap by linarith
  then have v: "unat (start + of_nat k * P) = unat start + k * unat P"
    by (rule unat_page_addr)
  have "k * unat P < unat sz" using kn ceil_pages[OF p, of k "unat sz"] by (simp add: n_def)
  then have lt: "start + of_nat k * P < start + sz"
    using e v by (simp add: word_less_nat_alt)
  let ?pg = "hv_slot env (virtual_console s) start k"
  let ?r = "arch_map_memory_region (ext env) (trace s) ?pg"
  let ?s1 = "store_error ?r (log_event (ArchMapMemoryRegion ?pg ?r) s)"
  have nxt: "start + of_nat k * P + P = start + of_nat (Suc k) * P" by (simp add: algebra_simps)
  have unf: "map_hv_pages env (start + sz) (start + of_nat k * P) s =
      (if ?r \<noteq> 0 then Some (Inl ?s1) else map_hv_pages env (start + sz) (start + of_nat (Suc k) * P) ?s1)"
    using lt by (subst map_hv_pages.simps) (simp add: Let_def hv_slot_def P_def[symmetric] nxt)
  show ?case
  proof (cases "?r = 0")
    case False
    have "map_hv_pages env (start + sz) (start + of_nat k * P) s = Some (Inl ?s1)"
      using False unf by simp
    moreover have "trace ?s1 = trace s @ map (\<lambda>j. ArchMapMemoryRegion (hv_slot env (virtual_console s) start j) 0) [k..<k]
                        @ [ArchMapMemoryRegion (hv_slot env (virtual_console s) start k) (error ?s1)]"
      by simp
    moreover have "error_stores ?s1 = error_stores s @ replicate (k - k) 0 @ [error ?s1]" by simp
    moreover have "frame ?s1 = frame s" "error ?s1 \<noteq> 0" using False by simp_all
    ultimately show ?thesis using kn by blast
  next
    case True
    have vc: "virtual_console ?s1 = virtual_console s" by (rule frame_fields) simp
    from Suc.hyps(1)[of "Suc k" ?s1] d kn obtain s' where
      fr: "frame s' = frame ?s1" and
      alt: "(map_hv_pages env (start + sz) (start + of_nat (Suc k) * P) ?s1 = Some (Inr s') \<and>
        trace s' = trace ?s1 @ map (\<lambda>j. ArchMapMemoryRegion (hv_slot env (virtual_console s) start j) 0) [Suc k..<n] \<and>
        error_stores s' = error_stores ?s1 @ replicate (n - Suc k) 0 \<and>
        error s' = (if Suc k = n then error ?s1 else 0))
      \<or> (map_hv_pages env (start + sz) (start + of_nat (Suc k) * P) ?s1 = Some (Inl s') \<and>
        error s' \<noteq> 0 \<and>
        (\<exists>j. Suc k \<le> j \<and> j < n \<and>
           trace s' = trace ?s1 @ map (\<lambda>j. ArchMapMemoryRegion (hv_slot env (virtual_console s) start j) 0) [Suc k..<j]
                        @ [ArchMapMemoryRegion (hv_slot env (virtual_console s) start j) (error s')] \<and>
           error_stores s' = error_stores ?s1 @ replicate (j - Suc k) 0 @ [error s']))"
      unfolding vc by (metis Suc_leI)
    have fr': "frame s' = frame s" using fr by simp
    from alt show ?thesis
    proof
      assume a: "map_hv_pages env (start + sz) (start + of_nat (Suc k) * P) ?s1 = Some (Inr s') \<and>
        trace s' = trace ?s1 @ map (\<lambda>j. ArchMapMemoryRegion (hv_slot env (virtual_console s) start j) 0) [Suc k..<n] \<and>
        error_stores s' = error_stores ?s1 @ replicate (n - Suc k) 0 \<and>
        error s' = (if Suc k = n then error ?s1 else 0)"
      have "map_hv_pages env (start + sz) (start + of_nat k * P) s = Some (Inr s')"
        using a True unf by simp
      moreover have "trace s' = trace s @ map (\<lambda>j. ArchMapMemoryRegion (hv_slot env (virtual_console s) start j) 0) [k..<n]"
        using a True kn by (simp add: upt_conv_Cons)
      moreover have "replicate (n - k) (0::s32) = 0 # replicate (n - Suc k) 0"
        using kn by (metis Suc_diff_Suc replicate_Suc)
      then have "error_stores s' = error_stores s @ replicate (n - k) 0"
        using a True by simp
      moreover have "error s' = (if k = n then error s else 0)"
        using a True kn by auto
      ultimately show ?thesis using fr' by blast
    next
      assume b: "map_hv_pages env (start + sz) (start + of_nat (Suc k) * P) ?s1 = Some (Inl s') \<and>
        error s' \<noteq> 0 \<and>
        (\<exists>j. Suc k \<le> j \<and> j < n \<and>
           trace s' = trace ?s1 @ map (\<lambda>j. ArchMapMemoryRegion (hv_slot env (virtual_console s) start j) 0) [Suc k..<j]
                        @ [ArchMapMemoryRegion (hv_slot env (virtual_console s) start j) (error s')] \<and>
           error_stores s' = error_stores ?s1 @ replicate (j - Suc k) 0 @ [error s'])"
      then obtain j where j: "Suc k \<le> j" "j < n"
         "trace s' = trace ?s1 @ map (\<lambda>j. ArchMapMemoryRegion (hv_slot env (virtual_console s) start j) 0) [Suc k..<j]
                        @ [ArchMapMemoryRegion (hv_slot env (virtual_console s) start j) (error s')]"
         "error_stores s' = error_stores ?s1 @ replicate (j - Suc k) 0 @ [error s']" by blast
      have "map_hv_pages env (start + sz) (start + of_nat k * P) s = Some (Inl s')"
        using b True unf by simp
      moreover have "trace s' = trace s @ map (\<lambda>j. ArchMapMemoryRegion (hv_slot env (virtual_console s) start j) 0) [k..<j]
                        @ [ArchMapMemoryRegion (hv_slot env (virtual_console s) start j) (error s')]"
        using j True by (simp add: upt_conv_Cons)
      moreover have "replicate (j - k) (0::s32) = 0 # replicate (j - Suc k) 0"
        using j(1) by (metis Suc_diff_Suc Suc_le_lessD replicate_Suc)
      then have "error_stores s' = error_stores s @ replicate (j - k) 0 @ [error s']"
        using j True by simp
      moreover have "k \<le> j" using j by simp
      ultimately show ?thesis using fr' b j(2) by blast
    qed
  qed
qed

lemma hv_page_slot:
  "hv_page env k =
     hv_slot env (SYS_FLAGS_VIRTUAL_DEBUG_CONSOLE env (sys_flags (boot_config env)))
       (phys_start (hypervisor_memory (boot_config env))) k"
  by (simp add: hv_page_def hv_slot_def Let_def)

lemma init_early_cases:
  assumes P0: "PAGE_SIZE env \<noteq> 0"
    and nowrap: "unat (phys_start (hypervisor_memory (boot_config env))) +
                 hv_page_count env * unat (PAGE_SIZE env) < 2 ^ 64"
  shows "\<exists>s' evs. init_early env cpu s = Some s' \<and> trace s' = trace s @ evs \<and>
    ((\<exists>r. r \<noteq> 0 \<and> error s' = r \<and> evs = early_prefix @ [PagingInit r])
     \<or> (\<exists>r. r \<noteq> 0 \<and> error s' = r \<and> evs = early_prefix @ [PagingInit 0, CellInit r])
     \<or> (\<exists>r. r \<noteq> 0 \<and> error s' = r \<and>
           evs = early_prefix @ [PagingInit 0, CellInit 0, ArchInitEarly r])
     \<or> (\<exists>r j. r \<noteq> 0 \<and> error s' = r \<and> j < hv_page_count env \<and>
           evs = early_prefix @ [PagingInit 0, CellInit 0, ArchInitEarly 0] @
                 map (\<lambda>m. ArchMapMemoryRegion m 0) (take j (hv_pages env)) @
                 [ArchMapMemoryRegion (hv_pages env ! j) r])
     \<or> (error s' = 0 \<and>
           evs = early_prefix @ [PagingInit 0, CellInit 0, ArchInitEarly 0] @
                 map (\<lambda>m. ArchMapMemoryRegion m 0) (hv_pages env) @
                 [PagingDumpStats ''after early setup'', Printk ''Initializing processors:'']))"
proof -
  define A where "A = JAILHOUSE_BASE env + (core_size (hypervisor_header env) +
       sizeof_per_cpu env * ucast (max_cpus (hypervisor_header env)))"
  define cfg where "cfg = config_at env A"
  have cfg: "cfg = boot_config env" by (simp add: cfg_def A_def boot_config_def)
  define vc where "vc = SYS_FLAGS_VIRTUAL_DEBUG_CONSOLE env (sys_flags cfg)"
  define s7 where "s7 = s\<lparr>master_cpu_id := cpu, system_config := A, virtual_console := vc,
                          trace := trace s @ early_prefix\<rparr>"
  define r1 where "r1 = paging_init (ext env) (trace s7)"
  define s8 where "s8 = store_error r1 (log_event (PagingInit r1) s7)"
  define s9 where "s9 = s8\<lparr>root_cell_config := A\<rparr>"
  define r2 where "r2 = cell_init (ext env) (trace s9)"
  define s10 where "s10 = store_error r2 (log_event (CellInit r2) s9)"
  define r3 where "r3 = arch_init_early (ext env) (trace s10)"
  define s11 where "s11 = store_error r3 (log_event (ArchInitEarly r3) s10)"
  define start where "start = phys_start (hypervisor_memory cfg)"
  define sz where "sz = mem_size (hypervisor_memory cfg)"
  have unf: "init_early env cpu s =
     (if r1 \<noteq> 0 then Some s8 else if r2 \<noteq> 0 then Some s10 else if r3 \<noteq> 0 then Some s11
      else (case map_hv_pages env (start + sz) start s11 of
              None \<Rightarrow> None
            | Some (Inl s12) \<Rightarrow> Some s12
            | Some (Inr s12) \<Rightarrow>
                Some (log_event (Printk ''Initializing processors:'')
                       (log_event (PagingDumpStats ''after early setup'') s12))))"
    by (simp add: init_early_def init_early_assign_def init_early_calls_def Let_def s7_def r1_def s8_def s9_def r2_def s10_def r3_def
        s11_def start_def sz_def cfg_def vc_def A_def early_prefix_def log_event_def
        store_error_def)
  have t8: "trace s8 = trace s @ early_prefix @ [PagingInit r1]"
    by (simp add: s8_def s7_def)
  have t10: "trace s10 = trace s @ early_prefix @ [PagingInit r1, CellInit r2]"
    by (simp add: s10_def s9_def t8)
  have t11: "trace s11 = trace s @ early_prefix @ [PagingInit r1, CellInit r2, ArchInitEarly r3]"
    by (simp add: s11_def t10)
  have vc11: "virtual_console s11 = vc"
    by (simp add: s11_def s10_def s9_def s8_def s7_def store_error_def log_event_def)
  have n: "hv_page_count env = (unat sz + unat (PAGE_SIZE env) - 1) div unat (PAGE_SIZE env)"
    by (simp add: hv_page_count_def sz_def cfg)
  have pages: "map (\<lambda>j. ArchMapMemoryRegion (hv_slot env vc start j) r) [0..<j] =
      map (\<lambda>m. ArchMapMemoryRegion m r) (take j (hv_pages env))" if "j \<le> hv_page_count env" for j r
    using that by (simp add: hv_pages_def take_map hv_page_slot vc_def start_def cfg comp_def
        take_upt)
  have page: "hv_slot env vc start j = hv_pages env ! j" if "j < hv_page_count env" for j
    using that by (simp add: hv_pages_def hv_page_slot vc_def start_def cfg)
  show ?thesis
  proof (cases "r1 = 0")
    case False
    then show ?thesis using unf t8 by (auto simp: s8_def)
  next
    case r1: True
    show ?thesis
    proof (cases "r2 = 0")
      case False
      then show ?thesis using unf r1 t10 by (auto simp: s10_def)
    next
      case r2: True
      show ?thesis
      proof (cases "r3 = 0")
        case False
        then show ?thesis using unf r1 r2 t11 by (auto simp: s11_def)
      next
        case r3: True
        have nw: "unat start + (unat sz + unat (PAGE_SIZE env) - 1) div unat (PAGE_SIZE env) *
                    unat (PAGE_SIZE env) < 2 ^ 64"
          using nowrap by (simp add: n start_def cfg)
        from map_hv_pages_result[OF P0 nw, of 0 s11]
        obtain s12 where
          alt: "(map_hv_pages env (start + sz) start s11 = Some (Inr s12) \<and>
             trace s12 = trace s11 @ map (\<lambda>j. ArchMapMemoryRegion (hv_slot env vc start j) 0)
                                       [0..<hv_page_count env] \<and>
             error s12 = (if 0 = hv_page_count env then error s11 else 0))
           \<or> (map_hv_pages env (start + sz) start s11 = Some (Inl s12) \<and> error s12 \<noteq> 0 \<and>
               (\<exists>j. j < hv_page_count env \<and>
                  trace s12 = trace s11 @ map (\<lambda>j. ArchMapMemoryRegion (hv_slot env vc start j) 0) [0..<j]
                        @ [ArchMapMemoryRegion (hv_slot env vc start j) (error s12)]))"
          unfolding vc11 n by auto
        from alt show ?thesis
        proof
          assume a: "map_hv_pages env (start + sz) start s11 = Some (Inr s12) \<and>
             trace s12 = trace s11 @ map (\<lambda>j. ArchMapMemoryRegion (hv_slot env vc start j) 0)
                                       [0..<hv_page_count env] \<and>
             error s12 = (if 0 = hv_page_count env then error s11 else 0)"
          have e: "error s12 = 0" using a r3 by (simp add: s11_def split: if_splits)
          show ?thesis
            using unf r1 r2 r3 a e t11 pages[of "hv_page_count env" 0]
            by (simp add: hv_pages_def)
        next
          assume b: "map_hv_pages env (start + sz) start s11 = Some (Inl s12) \<and> error s12 \<noteq> 0 \<and>
               (\<exists>j. j < hv_page_count env \<and>
                  trace s12 = trace s11 @ map (\<lambda>j. ArchMapMemoryRegion (hv_slot env vc start j) 0) [0..<j]
                        @ [ArchMapMemoryRegion (hv_slot env vc start j) (error s12)])"
          then obtain j where j: "j < hv_page_count env"
             "trace s12 = trace s11 @ map (\<lambda>j. ArchMapMemoryRegion (hv_slot env vc start j) 0) [0..<j]
                        @ [ArchMapMemoryRegion (hv_slot env vc start j) (error s12)]" by blast
          have "init_early env cpu s = Some s12" using unf r1 r2 r3 b by simp
          moreover have "trace s12 = trace s @ (early_prefix @ [PagingInit 0, CellInit 0, ArchInitEarly 0] @
                 map (\<lambda>m. ArchMapMemoryRegion m 0) (take j (hv_pages env)) @
                 [ArchMapMemoryRegion (hv_pages env ! j) (error s12)])"
            using j t11 r1 r2 r3 pages[of j 0] page[of j] by simp
          ultimately show ?thesis using b j(1) by blast
        qed
      qed
    qed
  qed
qed

lemma early_prefix_simps [simp]:
  "filter is_map_event early_prefix = []"
  "\<forall>e \<in> set early_prefix. event_result e = 0"
  by (simp_all add: early_prefix_def)

lemma map_events_simps [simp]:
  "filter is_map_event (map (\<lambda>m. ArchMapMemoryRegion m r) xs) = map (\<lambda>m. ArchMapMemoryRegion m r) xs"
  "map event_result (map (\<lambda>m. ArchMapMemoryRegion m r) xs) = replicate (length xs) r"
  "map (event_result \<circ> (\<lambda>m. ArchMapMemoryRegion m r)) xs = replicate (length xs) r"
  by (induction xs) simp_all

lemma zip_results_all:
  "map (\<lambda>(m, r). ArchMapMemoryRegion m r) (zip xs (replicate (length xs) r)) =
     map (\<lambda>m. ArchMapMemoryRegion m r) xs"
  by (induction xs) simp_all

lemma zip_results_failed:
  "j < length xs \<Longrightarrow>
   map (\<lambda>(m, r). ArchMapMemoryRegion m r) (zip xs (replicate j 0 @ [r])) =
     map (\<lambda>m. ArchMapMemoryRegion m 0) (take j xs) @ [ArchMapMemoryRegion (xs ! j) r]"
proof (induction xs arbitrary: j)
  case Nil then show ?case by simp
next
  case (Cons a xs) then show ?case by (cases j) simp_all
qed

text \<open>The recorded results are those of the callees.\<close>

lemma map_hv_pages_follows:
  assumes "map_hv_pages env hend v s = Some res"
  shows "follows env s (result_state res)"
proof (rule map_hv_pages.raw_induct[OF _ assms], goal_cases)
  case (1 rec env hend v s res)
  show ?case
  proof (cases "v < hend")
    case False
    then show ?thesis using 1(2) by (auto simp: result_state_def)
  next
    case True
    let ?pg = "\<lparr>phys_start = (if virtual_console s \<and> v = console_phys env
                           then console_phys env else empty_page_phys env),
                 virt_start = v, mem_size = PAGE_SIZE env,
                 mem_flags = JAILHOUSE_MEM_READ env\<rparr>"
    let ?r = "arch_map_memory_region (ext env) (trace s) ?pg"
    let ?s1 = "store_error ?r (log_event (ArchMapMemoryRegion ?pg ?r) s)"
    have s1: "follows env s ?s1" by (rule follows_call) simp
    show ?thesis
    proof (cases "?r = 0")
      case False
      then have "res = Inl ?s1" using 1(2) True by (simp add: Let_def)
      then show ?thesis using s1 by (simp add: result_state_def)
    next
      case z: True
      then have "rec env hend (v + PAGE_SIZE env) ?s1 = Some res"
        using 1(2) True by (simp add: Let_def)
      from follows_trans[OF s1 1(1)[OF this]] show ?thesis .
    qed
  qed
qed

lemma init_early_follows:
  assumes "init_early env cpu s = Some s'"
  shows "follows env s s'"
proof -
  define A where "A = JAILHOUSE_BASE env + (core_size (hypervisor_header env) +
       sizeof_per_cpu env * ucast (max_cpus (hypervisor_header env)))"
  define cfg where "cfg = config_at env A"
  define vc where "vc = SYS_FLAGS_VIRTUAL_DEBUG_CONSOLE env (sys_flags cfg)"
  define s7 where "s7 = s\<lparr>master_cpu_id := cpu, system_config := A, virtual_console := vc,
                          trace := trace s @ early_prefix\<rparr>"
  define r1 where "r1 = paging_init (ext env) (trace s7)"
  define s8 where "s8 = store_error r1 (log_event (PagingInit r1) s7)"
  define s9 where "s9 = s8\<lparr>root_cell_config := A\<rparr>"
  define r2 where "r2 = cell_init (ext env) (trace s9)"
  define s10 where "s10 = store_error r2 (log_event (CellInit r2) s9)"
  define r3 where "r3 = arch_init_early (ext env) (trace s10)"
  define s11 where "s11 = store_error r3 (log_event (ArchInitEarly r3) s10)"
  define start where "start = phys_start (hypervisor_memory cfg)"
  define sz where "sz = mem_size (hypervisor_memory cfg)"
  have unf: "init_early env cpu s =
     (if r1 \<noteq> 0 then Some s8 else if r2 \<noteq> 0 then Some s10 else if r3 \<noteq> 0 then Some s11
      else (case map_hv_pages env (start + sz) start s11 of
              None \<Rightarrow> None
            | Some (Inl s12) \<Rightarrow> Some s12
            | Some (Inr s12) \<Rightarrow>
                Some (log_event (Printk ''Initializing processors:'')
                       (log_event (PagingDumpStats ''after early setup'') s12))))"
    by (simp add: init_early_def init_early_assign_def init_early_calls_def Let_def s7_def r1_def s8_def s9_def r2_def s10_def r3_def
        s11_def start_def sz_def cfg_def vc_def A_def early_prefix_def log_event_def
        store_error_def)
  have f7: "follows env s s7" by (simp add: follows_def s7_def early_prefix_def)
  have "follows env s7 s8" unfolding s8_def r1_def by (rule follows_call) simp
  note f8 = follows_trans[OF f7 this]
  have "follows env s8 s9" by (rule follows_same_trace) (simp add: s9_def)
  note f9 = follows_trans[OF f8 this]
  have "follows env s9 s10" unfolding s10_def r2_def by (rule follows_call) simp
  note f10 = follows_trans[OF f9 this]
  have "follows env s10 s11" unfolding s11_def r3_def by (rule follows_call) simp
  note f11 = follows_trans[OF f10 this]
  show ?thesis
  proof (cases "r1 = 0 \<and> r2 = 0 \<and> r3 = 0")
    case False
    then show ?thesis using assms unf f8 f10 f11 by (auto split: if_splits)
  next
    case True
    then obtain res where res: "map_hv_pages env (start + sz) start s11 = Some res"
      using assms unf by (auto split: option.splits)
    note q = follows_trans[OF f11 map_hv_pages_follows[OF res]]
    show ?thesis
    proof (cases res)
      case (Inl a)
      then show ?thesis using q assms unf True res by (simp add: result_state_def)
    next
      case (Inr b)
      then have "s' = log_event (Printk ''Initializing processors:'')
                       (log_event (PagingDumpStats ''after early setup'') b)"
        using assms unf True res by simp
      then show ?thesis using q Inr by (simp add: result_state_def follows_log_I)
    qed
  qed
qed

lemma init_early_faithful:
  assumes "init_early env cpu s = Some s'"
  shows "faithful env (trace s) (init_early_events env cpu s)"
proof -
  from init_early_follows[OF assms] obtain evs where
    "trace s' = trace s @ evs" "faithful env (trace s) evs"
    by (auto simp: follows_def)
  then show ?thesis using assms by (simp add: init_early_events_def)
qed

text \<open>
  A hypervisor region whose end wraps around \<open>2 ^ 64\<close>: the region at
  \<open>0xfffffffffffff000\<close> of size \<open>0x2000\<close> has two pages, its end \<open>phys_start + size\<close> is
  computed as \<open>0x1000\<close>, the test of line 84 fails at once, and \<open>init_early\<close> returns
  with \<open>error = 0\<close> without having mapped any page.
\<close>

theorem init_early_skips_wrapping_region:
  "phys_start (hypervisor_memory (boot_config wrap_env)) = 0xfffffffffffff000
   \<and> mem_size (hypervisor_memory (boot_config wrap_env)) = 0x2000
   \<and> hv_page_count wrap_env = 2
   \<and> map_option error (init_early wrap_env 0 (globals0 wrap_env)) = Some 0
   \<and> filter is_map_event (init_early_events wrap_env 0 (globals0 wrap_env)) = []"
  by code_simp

text \<open>
  C6, for a region that does not wrap. Let the addresses of the pages of the hypervisor
  memory region not wrap around \<open>2 ^ 64\<close>, and let the page size be non-zero (line 27
  declares an array of \<^verbatim>\<open>PAGE_SIZE\<close> bytes). Then \<open>init_early\<close> returns. Every event
  that it adds records what its callee returned at that point (\<open>faithful\<close>: the results
  are those of \<open>arch_map_memory_region\<close> and the other functions of \<open>ext env\<close>). Its
  calls of \<open>arch_map_memory_region\<close> are, in order, calls on an initial part of the pages
  of the region as the specification describes them (page-sized, readable, backed by
  the empty page or, for the console slot with the virtual console enabled, by the
  console page). Every call but the last one of \<open>init_early\<close> returned 0, so the first
  failure ends it; the result of a failed call is the value of \<open>error\<close>; and when no
  call failed, \<open>error\<close> is 0 and every page of the region has been mapped.
\<close>

theorem init_early_maps_hypervisor_pages:
  assumes "PAGE_SIZE env \<noteq> 0"
    and "unat (phys_start (hypervisor_memory (boot_config env))) +
           hv_page_count env * unat (PAGE_SIZE env) < 2 ^ 64"
  shows "\<exists>s'. init_early env cpu s = Some s' \<and>
     (let evs = init_early_events env cpu s;
          maps = filter is_map_event evs
      in faithful env (trace s) evs
         \<and> maps = map (\<lambda>(m, r). ArchMapMemoryRegion m r) (zip (hv_pages env) (map event_result maps))
         \<and> (\<forall>e \<in> set (butlast evs). event_result e = 0)
         \<and> (\<forall>e \<in> set evs. event_result e \<noteq> 0 \<longrightarrow> error s' = event_result e)
         \<and> ((\<forall>e \<in> set evs. event_result e = 0) \<longrightarrow>
              error s' = 0 \<and> maps = map (\<lambda>m. ArchMapMemoryRegion m 0) (hv_pages env)))"
proof -
  from init_early_cases[OF assms, of cpu s] obtain s' evs where
    s': "init_early env cpu s = Some s'" and tr: "trace s' = trace s @ evs" and
    cases: "(\<exists>r. r \<noteq> 0 \<and> error s' = r \<and> evs = early_prefix @ [PagingInit r])
     \<or> (\<exists>r. r \<noteq> 0 \<and> error s' = r \<and> evs = early_prefix @ [PagingInit 0, CellInit r])
     \<or> (\<exists>r. r \<noteq> 0 \<and> error s' = r \<and>
           evs = early_prefix @ [PagingInit 0, CellInit 0, ArchInitEarly r])
     \<or> (\<exists>r j. r \<noteq> 0 \<and> error s' = r \<and> j < hv_page_count env \<and>
           evs = early_prefix @ [PagingInit 0, CellInit 0, ArchInitEarly 0] @
                 map (\<lambda>m. ArchMapMemoryRegion m 0) (take j (hv_pages env)) @
                 [ArchMapMemoryRegion (hv_pages env ! j) r])
     \<or> (error s' = 0 \<and>
           evs = early_prefix @ [PagingInit 0, CellInit 0, ArchInitEarly 0] @
                 map (\<lambda>m. ArchMapMemoryRegion m 0) (hv_pages env) @
                 [PagingDumpStats ''after early setup'', Printk ''Initializing processors:''])"
    by blast
  have evs: "init_early_events env cpu s = evs"
    by (simp add: init_early_events_def s' tr)
  have fa: "faithful env (trace s) evs" using init_early_faithful[OF s'] evs by simp
  have len: "length (hv_pages env) = hv_page_count env" by (simp add: hv_pages_def)
  from cases consider
      (a) r where "r \<noteq> 0" "error s' = r" "evs = early_prefix @ [PagingInit r]"
    | (b) r where "r \<noteq> 0" "error s' = r" "evs = early_prefix @ [PagingInit 0, CellInit r]"
    | (c) r where "r \<noteq> 0" "error s' = r"
        "evs = early_prefix @ [PagingInit 0, CellInit 0, ArchInitEarly r]"
    | (d) r j where "r \<noteq> 0" "error s' = r" "j < hv_page_count env"
        "evs = (early_prefix @ [PagingInit 0, CellInit 0, ArchInitEarly 0] @
                 map (\<lambda>m. ArchMapMemoryRegion m 0) (take j (hv_pages env))) @
                 [ArchMapMemoryRegion (hv_pages env ! j) r]"
    | (e) "error s' = 0"
        "evs = early_prefix @ [PagingInit 0, CellInit 0, ArchInitEarly 0] @
                 map (\<lambda>m. ArchMapMemoryRegion m 0) (hv_pages env) @
                 [PagingDumpStats ''after early setup'', Printk ''Initializing processors:'']"
    by auto
  then have "filter is_map_event evs =
        map (\<lambda>(m, r). ArchMapMemoryRegion m r)
          (zip (hv_pages env) (map event_result (filter is_map_event evs)))
      \<and> (\<forall>e \<in> set (butlast evs). event_result e = 0)
      \<and> (\<forall>e \<in> set evs. event_result e \<noteq> 0 \<longrightarrow> error s' = event_result e)
      \<and> ((\<forall>e \<in> set evs. event_result e = 0) \<longrightarrow>
            error s' = 0 \<and>
            filter is_map_event evs = map (\<lambda>m. ArchMapMemoryRegion m 0) (hv_pages env))"
  proof cases
    case a then show ?thesis using early_prefix_simps(2) by (auto simp: butlast_append)
  next
    case b then show ?thesis using early_prefix_simps(2) by (auto simp: butlast_append)
  next
    case c then show ?thesis using early_prefix_simps(2) by (auto simp: butlast_append)
  next
    case d
    have f: "filter is_map_event evs =
        map (\<lambda>m. ArchMapMemoryRegion m 0) (take j (hv_pages env)) @
          [ArchMapMemoryRegion (hv_pages env ! j) r]"
      using d(4) by simp
    have r: "map event_result (filter is_map_event evs) = replicate j 0 @ [r]"
      unfolding f using d(3) len by simp
    have bl: "butlast evs = early_prefix @ [PagingInit 0, CellInit 0, ArchInitEarly 0] @
                 map (\<lambda>m. ArchMapMemoryRegion m 0) (take j (hv_pages env))"
      unfolding d(4) by (simp only: butlast_snoc)
    have 1: "filter is_map_event evs =
        map (\<lambda>(m, r). ArchMapMemoryRegion m r)
          (zip (hv_pages env) (map event_result (filter is_map_event evs)))"
      unfolding r using zip_results_failed[of j "hv_pages env" r] d(3) len f by simp
    have 2: "\<forall>e \<in> set (butlast evs). event_result e = 0"
      unfolding bl using early_prefix_simps(2) by auto
    have 3: "\<forall>e \<in> set evs. event_result e \<noteq> 0 \<longrightarrow> error s' = event_result e"
      unfolding d(4) using early_prefix_simps(2) d(2) by auto
    have 4: "\<not> (\<forall>e \<in> set evs. event_result e = 0)"
      unfolding d(4) using d(1) by auto
    show ?thesis using 1 2 3 4 by blast
  next
    case e
    have f: "filter is_map_event evs = map (\<lambda>m. ArchMapMemoryRegion m 0) (hv_pages env)"
      using e(2) by simp
    have 1: "filter is_map_event evs =
        map (\<lambda>(m, r). ArchMapMemoryRegion m r)
          (zip (hv_pages env) (map event_result (filter is_map_event evs)))"
      unfolding f by (simp add: zip_results_all)
    have all0: "\<forall>e \<in> set evs. event_result e = 0"
      unfolding e(2) using early_prefix_simps(2) by auto
    then have 2: "\<forall>e \<in> set (butlast evs). event_result e = 0"
      by (meson in_set_butlastD)
    show ?thesis using 1 2 all0 f e(1) by blast
  qed
  then show ?thesis using s' fa unfolding Let_def evs by blast
qed

text \<open>
  The two examples of the specification, three pages without and with the virtual
  console, and the same region when the mapping of the second page fails: the failing
  call is the last one and its result is the value of \<open>error\<close>.
\<close>

theorem init_early_maps_hypervisor_pages_witness:
  "PAGE_SIZE example_env \<noteq> 0
   \<and> hv_page_count example_env = 3
   \<and> init_early example_env 0 (globals0 example_env) \<noteq> None
   \<and> filter is_map_event (init_early_events example_env 0 (globals0 example_env)) =
       [ArchMapMemoryRegion
          \<lparr>phys_start = 0x9000, virt_start = 0x1000, mem_size = 0x1000, mem_flags = 1\<rparr> 0,
        ArchMapMemoryRegion
          \<lparr>phys_start = 0x9000, virt_start = 0x2000, mem_size = 0x1000, mem_flags = 1\<rparr> 0,
        ArchMapMemoryRegion
          \<lparr>phys_start = 0x9000, virt_start = 0x3000, mem_size = 0x1000, mem_flags = 1\<rparr> 0]
   \<and> filter is_map_event (init_early_events console_env 0 (globals0 console_env)) =
       [ArchMapMemoryRegion
          \<lparr>phys_start = 0x9000, virt_start = 0x1000, mem_size = 0x1000, mem_flags = 1\<rparr> 0,
        ArchMapMemoryRegion
          \<lparr>phys_start = 0x2000, virt_start = 0x2000, mem_size = 0x1000, mem_flags = 1\<rparr> 0,
        ArchMapMemoryRegion
          \<lparr>phys_start = 0x9000, virt_start = 0x3000, mem_size = 0x1000, mem_flags = 1\<rparr> 0]
   \<and> filter is_map_event (init_early_events failing_page_env 0 (globals0 failing_page_env)) =
       [ArchMapMemoryRegion
          \<lparr>phys_start = 0x9000, virt_start = 0x1000, mem_size = 0x1000, mem_flags = 1\<rparr> 0,
        ArchMapMemoryRegion
          \<lparr>phys_start = 0x9000, virt_start = 0x2000, mem_size = 0x1000, mem_flags = 1\<rparr> (- 12)]
   \<and> map_option error (init_early failing_page_env 0 (globals0 failing_page_env)) = Some (- 12)"
proof -
  have bc: "boot_config example_env = example_config" "boot_config console_env = console_config"
    "boot_config failing_page_env = example_config"
    by (simp_all add: boot_config_def example_env_def console_env_def failing_page_env_def)
  have n: "hv_page_count example_env = 3" "hv_page_count console_env = 3"
    "hv_page_count failing_page_env = 3"
    by (simp_all add: hv_page_count_def bc example_config_def console_config_def)
      (simp_all add: example_env_def console_env_def failing_page_env_def)
  have p: "PAGE_SIZE example_env \<noteq> 0" "PAGE_SIZE console_env \<noteq> 0"
    "PAGE_SIZE failing_page_env \<noteq> 0"
    by (simp_all add: example_env_def console_env_def failing_page_env_def)
  have w: "unat (phys_start (hypervisor_memory (boot_config example_env))) +
             hv_page_count example_env * unat (PAGE_SIZE example_env) < 2 ^ 64"
    "unat (phys_start (hypervisor_memory (boot_config console_env))) +
             hv_page_count console_env * unat (PAGE_SIZE console_env) < 2 ^ 64"
    "unat (phys_start (hypervisor_memory (boot_config failing_page_env))) +
             hv_page_count failing_page_env * unat (PAGE_SIZE failing_page_env) < 2 ^ 64"
    unfolding n bc by (simp_all add: example_config_def console_config_def)
      (simp_all add: example_env_def console_env_def failing_page_env_def)
  have pages: "hv_pages example_env =
       [\<lparr>phys_start = 0x9000, virt_start = 0x1000, mem_size = 0x1000, mem_flags = 1\<rparr>,
        \<lparr>phys_start = 0x9000, virt_start = 0x2000, mem_size = 0x1000, mem_flags = 1\<rparr>,
        \<lparr>phys_start = 0x9000, virt_start = 0x3000, mem_size = 0x1000, mem_flags = 1\<rparr>]"
    "hv_pages console_env =
       [\<lparr>phys_start = 0x9000, virt_start = 0x1000, mem_size = 0x1000, mem_flags = 1\<rparr>,
        \<lparr>phys_start = 0x2000, virt_start = 0x2000, mem_size = 0x1000, mem_flags = 1\<rparr>,
        \<lparr>phys_start = 0x9000, virt_start = 0x3000, mem_size = 0x1000, mem_flags = 1\<rparr>]"
    unfolding hv_pages_def n
    by (simp_all add: upt_rec hv_page_def bc Let_def example_config_def console_config_def)
      (simp_all add: example_env_def console_env_def)
  have ok: "\<forall>e \<in> set (init_early_events example_env 0 (globals0 example_env)). event_result e = 0"
    "\<forall>e \<in> set (init_early_events console_env 0 (globals0 console_env)). event_result e = 0"
    by code_simp+
  note t1 = init_early_maps_hypervisor_pages
      [OF p(1) w(1), of 0 "globals0 example_env", unfolded Let_def]
  note t2 = init_early_maps_hypervisor_pages
      [OF p(2) w(2), of 0 "globals0 console_env", unfolded Let_def]
  note t3 = init_early_maps_hypervisor_pages
      [OF p(3) w(3), of 0 "globals0 failing_page_env", unfolded Let_def]
  from t1 have 1: "init_early example_env 0 (globals0 example_env) \<noteq> None" by auto
  from t1 ok(1) have 2: "filter is_map_event (init_early_events example_env 0 (globals0 example_env)) =
      map (\<lambda>m. ArchMapMemoryRegion m 0) (hv_pages example_env)" by blast
  from t2 ok(2) have 3: "filter is_map_event (init_early_events console_env 0 (globals0 console_env)) =
      map (\<lambda>m. ArchMapMemoryRegion m 0) (hv_pages console_env)" by blast
  have 4: "filter is_map_event (init_early_events failing_page_env 0 (globals0 failing_page_env)) =
       [ArchMapMemoryRegion
          \<lparr>phys_start = 0x9000, virt_start = 0x1000, mem_size = 0x1000, mem_flags = 1\<rparr> 0,
        ArchMapMemoryRegion
          \<lparr>phys_start = 0x9000, virt_start = 0x2000, mem_size = 0x1000, mem_flags = 1\<rparr> (- 12)]"
    by code_simp
  have mem: "ArchMapMemoryRegion
          \<lparr>phys_start = 0x9000, virt_start = 0x2000, mem_size = 0x1000, mem_flags = 1\<rparr> (- 12)
        \<in> set (init_early_events failing_page_env 0 (globals0 failing_page_env))"
    by code_simp
  from t3 obtain s' where s': "init_early failing_page_env 0 (globals0 failing_page_env) = Some s'"
    and e: "\<forall>e \<in> set (init_early_events failing_page_env 0 (globals0 failing_page_env)).
              event_result e \<noteq> 0 \<longrightarrow> error s' = event_result e" by blast
  from e mem have "error s' = - 12" by fastforce
  then have 5: "map_option error (init_early failing_page_env 0 (globals0 failing_page_env)) =
      Some (- 12)" using s' by simp
  have m: "map f [a, b, c] = [f a, f b, f c]" for f :: "jailhouse_memory \<Rightarrow> event" and a b c
    by simp
  note 2 = 2[unfolded pages m] and 3 = 3[unfolded pages m]
  show ?thesis using p(1) n(1) 1 2 3 4 5 by blast
qed

section \<open>What the three initialisation functions change\<close>

text \<open>
  The functions \<open>init_early\<close>, \<open>cpu_init\<close> and \<open>init_late\<close> are summarised by what they
  leave alone, which events they add to the trace and which values they store in
  \<open>error\<close>; the invariants of \<open>entry\<close> below rest on these summaries only.
\<close>

lemma core_step_simps:
  "pc c = Start \<Longrightarrow> core_step env c s =
     Some (c\<lparr>pc := Lock1, cpu_data := (cpu_data c)\<lparr>public_cpu_id := arg_cpu_id c\<rparr>\<rparr>,
           log_event (Printk ''[PGP]: %d cpu get in entry...'') s)"
  "pc c = Lock1 \<Longrightarrow> core_step env c s =
     (if init_lock s then Some (c, s)
      else Some (c\<lparr>pc := IncEntered\<rparr>, s\<lparr>init_lock := True\<rparr>))"
  "pc c = IncEntered \<Longrightarrow> core_step env c s =
     Some (c\<lparr>pc := Unlock1\<rparr>, s\<lparr>entered_cpus := entered_cpus s + 1\<rparr>)"
  "pc c = Unlock1 \<Longrightarrow> core_step env c s = Some (c\<lparr>pc := WaitEntered\<rparr>, s\<lparr>init_lock := False\<rparr>)"
  "pc c = WaitEntered \<Longrightarrow> core_step env c s =
     (if entered_cpus s < online_cpus (hypervisor_header env) then Some (c, s)
      else Some (c\<lparr>pc := Lock2\<rparr>, s))"
  "pc c = Lock2 \<Longrightarrow> core_step env c s =
     (if init_lock s then Some (c, s)
      else Some (c\<lparr>pc := Elect\<rparr>, s\<lparr>init_lock := True\<rparr>))"
  "pc c = Elect \<Longrightarrow> core_step env c s =
     (if master_cpu_id s = INVALID_CPU_ID env
      then Some (c\<lparr>pc := EarlyInit, master := True\<rparr>, s)
      else Some (c\<lparr>pc := PerCpuInit\<rparr>, s))"
  "pc c = EarlyInit \<Longrightarrow> core_step env c s =
     (case init_early env (arg_cpu_id c) s of
        None \<Rightarrow> None
      | Some s1 \<Rightarrow> Some (c\<lparr>pc := PerCpuInit\<rparr>, s1))"
  "pc c = PerCpuInit \<Longrightarrow> core_step env c s =
     (if error s = 0
      then Some (c\<lparr>pc := Unlock2, cpu_data := fst (cpu_init env (cpu_data c) s)\<rparr>,
                 snd (cpu_init env (cpu_data c) s))
      else Some (c\<lparr>pc := Unlock2\<rparr>, s))"
  "pc c = Unlock2 \<Longrightarrow> core_step env c s =
     Some (c\<lparr>pc := WaitInitialized\<rparr>, s\<lparr>init_lock := False\<rparr>)"
  "pc c = WaitInitialized \<Longrightarrow> core_step env c s =
     (if error s = 0 \<and> initialized_cpus s < online_cpus (hypervisor_header env)
      then Some (c, s)
      else Some (c\<lparr>pc := Branch261\<rparr>, s))"
  "pc c = Branch261 \<Longrightarrow> core_step env c s =
     (if error s = 0 \<and> master c then Some (c\<lparr>pc := LateInit\<rparr>, s)
      else Some (c\<lparr>pc := WaitActivate\<rparr>, s))"
  "pc c = LateInit \<Longrightarrow> core_step env c s = Some (c\<lparr>pc := SetActivate\<rparr>, init_late env s)"
  "pc c = SetActivate \<Longrightarrow> core_step env c s =
     (if error s = 0 then Some (c\<lparr>pc := CheckError\<rparr>, s\<lparr>activate := True\<rparr>)
      else Some (c\<lparr>pc := CheckError\<rparr>, s))"
  "pc c = WaitActivate \<Longrightarrow> core_step env c s =
     (if error s = 0 \<and> \<not> activate s then Some (c, s)
      else Some (c\<lparr>pc := CheckError\<rparr>, s))"
  "pc c = CheckError \<Longrightarrow> core_step env c s =
     (if error s \<noteq> 0
      then (if master c then Some (c\<lparr>pc := DoShutdown\<rparr>, s)
            else Some (c\<lparr>pc := Restore\<rparr>, s))
      else Some (c\<lparr>pc := Activate\<rparr>, s))"
  "pc c = DoShutdown \<Longrightarrow> core_step env c s = Some (c\<lparr>pc := Restore\<rparr>, log_event Shutdown s)"
  "pc c = Restore \<Longrightarrow> core_step env c s =
     Some (c\<lparr>pc := Return\<rparr>, log_event (ArchCpuRestore (arg_cpu_id c) (error s)) s)"
  "pc c = Return \<Longrightarrow> core_step env c s = Some (c\<lparr>pc := Returned (error s)\<rparr>, s)"
  "pc c = Activate \<Longrightarrow> core_step env c s =
     Some (c\<lparr>pc := Activated\<rparr>,
           log_event ArchCpuActivateVmm
             (if master c then log_event (Printk ''Activating hypervisor'') s else s))"
  "pc c = Returned e \<Longrightarrow> core_step env c s = Some (c, s)"
  "pc c = Activated \<Longrightarrow> core_step env c s = Some (c, s)"
  by (simp_all add: core_step_def split: prod.split)

lemma adds_refl [simp]: "adds K s s"
  by (simp add: adds_def)

lemma adds_trans: "adds K s s1 \<Longrightarrow> adds K s1 s2 \<Longrightarrow> adds K s s2"
  by (auto simp: adds_def)

lemma adds_log_I: "adds K s s' \<Longrightarrow> K e \<Longrightarrow> adds K s (log_event e s')"
  by (auto simp: adds_def)

lemma adds_store_I: "adds K s s' \<Longrightarrow> adds K s (store_error v s')"
  by (auto simp: adds_def)

lemma stores_refl [simp]: "stores s s"
  by (auto simp: stores_def)

lemma stores_log_I: "stores s s' \<Longrightarrow> stores s (log_event e s')"
  by (auto simp: stores_def)

lemma stores_store_I: "stores s s' \<Longrightarrow> error s' = 0 \<Longrightarrow> stores s (store_error v s')"
proof -
  assume a: "stores s s'" and z: "error s' = 0"
  then obtain vs where vs: "error_stores s' = error_stores s @ vs" "error s' = last (error s # vs)"
    "\<forall>v \<in> set (butlast vs). v = 0" by (auto simp: stores_def)
  have "\<forall>x \<in> set vs. x = 0 \<or> x = last vs"
    using vs(3) by (metis append_butlast_last_id empty_iff empty_set in_set_butlastD
        insert_iff list.set(2) rotate1.simps(2) set_rotate1)
  moreover have "vs \<noteq> [] \<Longrightarrow> last vs = 0" using vs(2) z by simp
  ultimately have "\<forall>x \<in> set vs. x = 0" by (metis empty_iff empty_set)
  then show ?thesis
    unfolding stores_def
    by (intro exI[of _ "vs @ [v]"]) (simp add: vs(1))
qed

lemma stores_trans: "stores s s1 \<Longrightarrow> error s1 = 0 \<Longrightarrow> stores s1 s2 \<Longrightarrow> stores s s2"
proof -
  assume a: "stores s s1" and z: "error s1 = 0" and b: "stores s1 s2"
  from a obtain vs where vs: "error_stores s1 = error_stores s @ vs" "error s1 = last (error s # vs)"
    "\<forall>v \<in> set (butlast vs). v = 0" by (auto simp: stores_def)
  from b obtain ws where ws: "error_stores s2 = error_stores s1 @ ws" "error s2 = last (error s1 # ws)"
    "\<forall>v \<in> set (butlast ws). v = 0" by (auto simp: stores_def)
  have "\<forall>x \<in> set vs. x = 0 \<or> x = last vs"
    using vs(3) by (metis append_butlast_last_id empty_iff empty_set in_set_butlastD
        insert_iff list.set(2) rotate1.simps(2) set_rotate1)
  moreover have "vs \<noteq> [] \<Longrightarrow> last vs = 0" using vs(2) z by simp
  ultimately have vz: "\<forall>x \<in> set vs. x = 0" by (metis empty_iff empty_set)
  have l: "error s2 = last (error s # vs @ ws)"
    using ws(2) vs(2) z by (cases "ws = []") auto
  have bl: "\<forall>v \<in> set (butlast (vs @ ws)). v = 0"
    using vz ws(3) by (auto simp: butlast_append dest: in_set_butlastD)
  show ?thesis unfolding stores_def
    by (intro exI[of _ "vs @ ws"]) (simp add: vs(1) ws(1) l bl)
qed

lemma stores_single: "stores s (store_error v (log_event e s))"
  unfolding stores_def by (intro exI[of _ "[v]"]) simp

lemma adds_single: "K e \<Longrightarrow> adds K s (store_error v (log_event e s))"
  unfolding adds_def by (intro exI[of _ "[e]"]) simp

lemma fields_store_log [simp]:
  "init_lock (store_error v s) = init_lock s" "init_lock (log_event e s) = init_lock s"
  "master_cpu_id (store_error v s) = master_cpu_id s" "master_cpu_id (log_event e s) = master_cpu_id s"
  "entered_cpus (store_error v s) = entered_cpus s" "entered_cpus (log_event e s) = entered_cpus s"
  "initialized_cpus (store_error v s) = initialized_cpus s"
  "initialized_cpus (log_event e s) = initialized_cpus s"
  "activate (store_error v s) = activate s" "activate (log_event e s) = activate s"
  "system_config (store_error v s) = system_config s" "system_config (log_event e s) = system_config s"
  "virtual_console (store_error v s) = virtual_console s"
  "virtual_console (log_event e s) = virtual_console s"
  "root_cell_config (store_error v s) = root_cell_config s"
  "root_cell_config (log_event e s) = root_cell_config s"
  by (simp_all add: store_error_def log_event_def)

lemma map_hv_pages_effect:
  assumes "map_hv_pages env hend v s = Some res"
  shows "frame (result_state res) = frame s \<and> adds init_event s (result_state res)
     \<and> stores s (result_state res)"
proof (rule map_hv_pages.raw_induct[OF _ assms], goal_cases)
  case (1 rec env hend v s res)
  show ?case
  proof (cases "v < hend")
    case False
    then show ?thesis using 1(2) by (auto simp: result_state_def)
  next
    case True
    let ?pg = "\<lparr>phys_start = (if virtual_console s \<and> v = console_phys env
                           then console_phys env else empty_page_phys env),
                 virt_start = v, mem_size = PAGE_SIZE env,
                 mem_flags = JAILHOUSE_MEM_READ env\<rparr>"
    let ?r = "arch_map_memory_region (ext env) (trace s) ?pg"
    let ?s1 = "store_error ?r (log_event (ArchMapMemoryRegion ?pg ?r) s)"
    have s1: "frame ?s1 = frame s" "adds init_event s ?s1" "stores s ?s1"
      by (simp_all add: stores_single adds_single)
    show ?thesis
    proof (cases "?r = 0")
      case False
      then have "res = Inl ?s1" using 1(2) True by (simp add: Let_def)
      then show ?thesis using s1 by (simp add: result_state_def)
    next
      case z: True
      then have "rec env hend (v + PAGE_SIZE env) ?s1 = Some res"
        using 1(2) True by (simp add: Let_def)
      from 1(1)[OF this] have
        ih: "frame (result_state res) = frame ?s1" "adds init_event ?s1 (result_state res)"
        "stores ?s1 (result_state res)" by simp_all
      have e: "error ?s1 = 0" using z by simp
      show ?thesis
        using ih(1) s1(1) adds_trans[OF s1(2) ih(2)] stores_trans[OF s1(3) e ih(3)] by simp
    qed
  qed
qed

lemma init_early_assign_effect:
  "master_cpu_id (init_early_assign env cpu s) = cpu"
  "trace (init_early_assign env cpu s) = trace s"
  "error (init_early_assign env cpu s) = error s"
  "error_stores (init_early_assign env cpu s) = error_stores s"
  by (simp_all add: init_early_assign_def Let_def)

lemma init_early_calls_master:
  assumes "init_early_calls env s = Some s'"
  shows "master_cpu_id s' = master_cpu_id s"
proof -
  have loop: "master_cpu_id (result_state res) = master_cpu_id t"
    if "map_hv_pages env e v t = Some res" for e v t res
    using map_hv_pages_effect[OF that] frame_fields(2) by blast
  show ?thesis
    using assms
    by (auto simp: init_early_calls_def Let_def result_state_def
        split: if_splits option.splits sum.splits dest!: loop)
qed

lemma init_early_effect:
  assumes "init_early env cpu s = Some s'"
  shows "master_cpu_id s' = cpu" "init_lock s' = init_lock s" "entered_cpus s' = entered_cpus s"
    "initialized_cpus s' = initialized_cpus s" "activate s' = activate s"
    "adds init_event s s'" "stores s s'"
proof -
  define A where "A = JAILHOUSE_BASE env + (core_size (hypervisor_header env) +
       sizeof_per_cpu env * ucast (max_cpus (hypervisor_header env)))"
  define cfg where "cfg = config_at env A"
  define vc where "vc = SYS_FLAGS_VIRTUAL_DEBUG_CONSOLE env (sys_flags cfg)"
  define s7 where "s7 = s\<lparr>master_cpu_id := cpu, system_config := A, virtual_console := vc,
                          trace := trace s @ early_prefix\<rparr>"
  define r1 where "r1 = paging_init (ext env) (trace s7)"
  define s8 where "s8 = store_error r1 (log_event (PagingInit r1) s7)"
  define s9 where "s9 = s8\<lparr>root_cell_config := A\<rparr>"
  define r2 where "r2 = cell_init (ext env) (trace s9)"
  define s10 where "s10 = store_error r2 (log_event (CellInit r2) s9)"
  define r3 where "r3 = arch_init_early (ext env) (trace s10)"
  define s11 where "s11 = store_error r3 (log_event (ArchInitEarly r3) s10)"
  define start where "start = phys_start (hypervisor_memory cfg)"
  define sz where "sz = mem_size (hypervisor_memory cfg)"
  define Q where "Q = (\<lambda>t. master_cpu_id t = cpu \<and> init_lock t = init_lock s \<and>
      entered_cpus t = entered_cpus s \<and> initialized_cpus t = initialized_cpus s \<and>
      activate t = activate s \<and> adds init_event s t \<and> stores s t)"
  have unf: "init_early env cpu s =
     (if r1 \<noteq> 0 then Some s8 else if r2 \<noteq> 0 then Some s10 else if r3 \<noteq> 0 then Some s11
      else (case map_hv_pages env (start + sz) start s11 of
              None \<Rightarrow> None
            | Some (Inl s12) \<Rightarrow> Some s12
            | Some (Inr s12) \<Rightarrow>
                Some (log_event (Printk ''Initializing processors:'')
                       (log_event (PagingDumpStats ''after early setup'') s12))))"
    by (simp add: init_early_def init_early_assign_def init_early_calls_def Let_def s7_def r1_def s8_def s9_def r2_def s10_def r3_def
        s11_def start_def sz_def cfg_def vc_def A_def early_prefix_def log_event_def
        store_error_def)
  have q7: "master_cpu_id s7 = cpu \<and> init_lock s7 = init_lock s \<and>
      entered_cpus s7 = entered_cpus s \<and> initialized_cpus s7 = initialized_cpus s \<and>
      activate s7 = activate s \<and> adds init_event s s7 \<and> error_stores s7 = error_stores s
      \<and> error s7 = error s"
    by (simp add: s7_def adds_def early_prefix_def)
  have "stores s7 s8" unfolding s8_def by (rule stores_single)
  then have "stores s s8" using q7 by (simp add: stores_def)
  then have q8: "Q s8" "error s8 = r1"
    using q7 unfolding Q_def s8_def by (simp_all add: adds_store_I adds_log_I)
  have frame9: "master_cpu_id s9 = cpu \<and> init_lock s9 = init_lock s \<and>
      entered_cpus s9 = entered_cpus s \<and> initialized_cpus s9 = initialized_cpus s \<and>
      activate s9 = activate s \<and> adds init_event s s9 \<and> stores s s9 \<and> error s9 = r1"
    using q8 unfolding Q_def s9_def by (simp add: adds_def stores_def)
  have q10: "r1 = 0 \<Longrightarrow> Q s10" "error s10 = r2"
    using frame9 unfolding Q_def s10_def
    by (simp_all add: adds_store_I adds_log_I stores_store_I stores_log_I)
  have q11: "r1 = 0 \<Longrightarrow> r2 = 0 \<Longrightarrow> Q s11" "error s11 = r3"
    using q10 unfolding Q_def s11_def
    by (simp_all add: adds_store_I adds_log_I stores_store_I stores_log_I)
  have loop: "Q (result_state res)" if "r1 = 0" "r2 = 0" "r3 = 0"
      "map_hv_pages env (start + sz) start s11 = Some res" for res
  proof -
    from map_hv_pages_effect[OF that(4)] have
      f: "frame (result_state res) = frame s11" and a: "adds init_event s11 (result_state res)"
      and st: "stores s11 (result_state res)" by simp_all
    have "Q s11" "error s11 = 0" using q11 that by simp_all
    then show ?thesis
      unfolding Q_def using frame_fields[OF f] adds_trans[OF _ a] stores_trans[OF _ _ st]
      by simp
  qed
  have "Q s'"
  proof (cases "r1 = 0 \<and> r2 = 0 \<and> r3 = 0")
    case False
    then show ?thesis using assms unf q8 q10 q11 by (auto split: if_splits)
  next
    case True
    then obtain res where res: "map_hv_pages env (start + sz) start s11 = Some res"
      using assms unf by (auto split: option.splits)
    from loop[OF _ _ _ res] True have q: "Q (result_state res)" by simp
    show ?thesis
    proof (cases res)
      case (Inl a)
      then show ?thesis using q assms unf True res by (simp add: result_state_def)
    next
      case (Inr b)
      then have "s' = log_event (Printk ''Initializing processors:'')
                       (log_event (PagingDumpStats ''after early setup'') b)"
        using assms unf True res by simp
      then show ?thesis using q Inr unfolding Q_def
        by (simp add: result_state_def adds_log_I stores_log_I)
    qed
  qed
  then show "master_cpu_id s' = cpu" "init_lock s' = init_lock s" "entered_cpus s' = entered_cpus s"
    "initialized_cpus s' = initialized_cpus s" "activate s' = activate s"
    "adds init_event s s'" "stores s s'"
    unfolding Q_def by simp_all
qed

lemma call_effects:
  "frame (snd (call_hvpt_link env d a s)) = frame s"
  "frame (snd (call_paging_create env d q s)) = frame s"
  "frame (snd (call_arch_cpu_init env d s)) = frame s"
  "frame (snd (pgp_ro_buf_link env d s)) = frame s"
  "error (snd (call_hvpt_link env d a s)) = error s"
  "error (snd (call_paging_create env d q s)) = error s"
  "error (snd (call_arch_cpu_init env d s)) = error s"
  "error (snd (pgp_ro_buf_link env d s)) = error s"
  "error_stores (snd (call_hvpt_link env d a s)) = error_stores s"
  "error_stores (snd (call_paging_create env d q s)) = error_stores s"
  "error_stores (snd (call_arch_cpu_init env d s)) = error_stores s"
  "error_stores (snd (pgp_ro_buf_link env d s)) = error_stores s"
  "adds init_event s (snd (call_hvpt_link env d a s))"
  "adds init_event s (snd (call_paging_create env d q s))"
  "adds init_event s (snd (call_arch_cpu_init env d s))"
  "adds init_event s (snd (pgp_ro_buf_link env d s))"
  by (auto simp: call_hvpt_link_def call_paging_create_def call_arch_cpu_init_def
      pgp_ro_buf_link_def Let_def adds_def split: prod.splits)

lemma cpu_init_failed_effect:
  "frame (cpu_init_failed err s) = frame s"
  "error (cpu_init_failed err s) = err"
  "error_stores (cpu_init_failed err s) = error_stores s @ [err]"
  "adds init_event s (cpu_init_failed err s)"
  by (simp_all add: cpu_init_failed_def adds_single)

lemma cpu_init_post_failed:
  assumes "frame t = frame s" "error_stores t = error_stores s" "adds init_event s t"
    and "err \<noteq> 0 \<or> err = - EINVAL env"
  shows "cpu_init_post env s (cpu_init_failed err t)"
  using assms frame_fields[OF assms(1)]
    frame_fields[OF cpu_init_failed_effect(1), of err t]
    adds_trans[OF assms(3) cpu_init_failed_effect(4), of err]
  by (simp add: cpu_init_post_def cpu_init_failed_effect)

lemma cpu_init_effect: "cpu_init_post env s (snd (cpu_init env d s))"
proof -
  define s1 where "s1 = log_event (Printk '' CPU %d... '') s"
  define cd where "cd = d\<lparr>public_cell := Some RootCell, pg_hv_paging := True,
      pg_root_paging := Some HvRootPaging, pg_root_table := Some PublicRootTablePage\<rparr>"
  define c2 where "c2 = call_hvpt_link env cd (JAILHOUSE_BASE env) s1"
  define c3 where "c3 = pgp_ro_buf_link env cd (snd c2)"
  define c4 where "c4 = (if CON_IS_MMIO env (debug_console_flags (config_at env (system_config (snd c3))))
      then call_hvpt_link env cd (debug_console_base (hypervisor_header env)) (snd c3)
      else (fst c3, snd c3))"
  define c5 where "c5 = call_paging_create env cd PerCpuData (snd c4)"
  define c6 where "c6 = call_arch_cpu_init env cd (snd c5)"
  define c7 where "c7 = call_paging_create env cd TemporaryPages (snd c6)"
  define s8 where "s8 = log_event (Printk ''OK'') (snd c7)"
  have unf: "snd (cpu_init env d s) =
    (if \<not> cpu_id_valid env (public_cpu_id d) then cpu_init_failed (- EINVAL env) s1
     else if fst c2 \<noteq> 0 then cpu_init_failed (fst c2) (snd c2)
     else if fst c3 \<noteq> 0 then cpu_init_failed (fst c3) (snd c3)
     else if fst c4 \<noteq> 0 then cpu_init_failed (fst c4) (snd c4)
     else if fst c5 \<noteq> 0 then cpu_init_failed (fst c5) (snd c5)
     else if fst c6 \<noteq> 0 then cpu_init_failed (fst c6) (snd c6)
     else if fst c7 \<noteq> 0 then cpu_init_failed (fst c7) (snd c7)
     else s8\<lparr>initialized_cpus := initialized_cpus s8 + 1\<rparr>)"
    unfolding cpu_init_def Let_def s1_def cd_def c2_def c3_def c4_def c5_def c6_def c7_def s8_def
    by (simp add: split_beta)
  define R where "R = (\<lambda>t. frame t = frame s \<and> error t = error s \<and>
      error_stores t = error_stores s \<and> adds init_event s t)"
  have r1: "R s1" by (simp add: R_def s1_def adds_def)
  have r2: "R (snd c2)" using r1 unfolding R_def c2_def
    by (auto simp: call_effects intro: adds_trans)
  have r3: "R (snd c3)" using r2 unfolding R_def c3_def
    by (auto simp: call_effects intro: adds_trans)
  have r4: "R (snd c4)" using r3 unfolding R_def c4_def
    by (auto simp: call_effects intro: adds_trans)
  have r5: "R (snd c5)" using r4 unfolding R_def c5_def
    by (auto simp: call_effects intro: adds_trans)
  have r6: "R (snd c6)" using r5 unfolding R_def c6_def
    by (auto simp: call_effects intro: adds_trans)
  have r7: "R (snd c7)" using r6 unfolding R_def c7_def
    by (auto simp: call_effects intro: adds_trans)
  have fail: "cpu_init_post env s (cpu_init_failed err t)"
    if "R t" "err \<noteq> 0 \<or> err = - EINVAL env" for t err
    using that cpu_init_post_failed unfolding R_def by blast
  have ok: "cpu_init_post env s (s8\<lparr>initialized_cpus := initialized_cpus s8 + 1\<rparr>)"
  proof -
    have f: "frame s8 = frame s" using r7 by (simp add: R_def s8_def)
    have "adds init_event s s8" using r7 by (simp add: R_def s8_def adds_log_I)
    then have "adds init_event s (s8\<lparr>initialized_cpus := initialized_cpus s8 + 1\<rparr>)"
      by (simp add: adds_def)
    then show ?thesis using frame_fields[OF f] r7
      by (simp add: cpu_init_post_def R_def s8_def)
  qed
  show ?thesis
    unfolding unf using fail[OF r1] fail[OF r2] fail[OF r3] fail[OF r4] fail[OF r5] fail[OF r6]
      fail[OF r7] ok
    by simp
qed

lemma stores_zeros:
  assumes "error_stores s' = error_stores s @ replicate k 0"
    and "error s' = (if k = 0 then error s else 0)"
  shows "stores s s'"
  unfolding stores_def using assms
  by (intro exI[of _ "replicate k 0"]) (auto dest: in_set_butlastD)

lemma stores_zeros_failed:
  assumes "error_stores s' = error_stores s @ replicate k 0 @ [error s']"
  shows "stores s s'"
  unfolding stores_def using assms
  by (intro exI[of _ "replicate k 0 @ [error s']"]) (simp add: butlast_append)

lemma no_entry_events [simp]:
  "\<not> entry_event (region_call env m r)"
  "e \<in> set (unit_events us) \<Longrightarrow> \<not> entry_event e"
  by (auto simp: unit_events_def region_call_def split: if_splits)

lemma init_late_effect: "late_post env s (init_late env s)"
proof (cases "online_cpus (hypervisor_header env) = of_nat (length (root_cell_cpu_set env))")
  case False
  then have "init_late env s = store_error (- EINVAL env) s"
    by (simp add: init_late_def fold_count_cpus trace_error_def)
  then show ?thesis
    by (simp add: late_post_def store_error_def frame_def adds_def stores_def)
next
  case True
  then have il: "init_late env s = (case init_units env (units env) s of
             Inl s1 \<Rightarrow> s1
           | Inr s1 \<Rightarrow>
               (case map_mem_regions env
                       (mem_regions (config_at env (root_cell_config s1))) s1 of
                  Inl s2 \<Rightarrow> s2
                | Inr s2 \<Rightarrow>
                    (let s3 = (if CONFIG_PAGE_TABLE_PROTECTION env
                               then log_event PagingSetFlag s2 else s2);
                         s4 = log_event ConfigCommit s3
                     in log_event (PagingDumpStats ''after late setup'') s4)))"
    by (simp add: init_late_def fold_count_cpus)
  show ?thesis
  proof (cases "init_units env (units env) s")
    case (Inl s1)
    from init_units_Inl[OF Inl] obtain pre u post where
      *: "frame s1 = frame s" "error s1 \<noteq> 0"
         "trace s1 = trace s @ unit_events pre @ [Printk ''Initializing unit: %s'', UnitInit u (error s1)]"
         "error_stores s1 = error_stores s @ replicate (length pre) 0 @ [error s1]"
      by blast
    have "adds (\<lambda>e. \<not> entry_event e) s s1"
      unfolding adds_def using *(3) by auto
    then show ?thesis using il Inl * stores_zeros_failed[OF *(4)]
      by (simp add: late_post_def)
  next
    case (Inr s1)
    from init_units_Inr[OF Inr] have
      s1: "frame s1 = frame s" "trace s1 = trace s @ unit_events (units env)"
        "error_stores s1 = error_stores s @ replicate (length (units env)) 0"
        "error s1 = (if units env = [] then error s else 0)"
      by simp_all
    define regions where "regions = mem_regions (config_at env (root_cell_config s1))"
    show ?thesis
    proof (cases "map_mem_regions env regions s1")
      case (Inl s2)
      from map_mem_regions_Inl[OF Inl] obtain pre m post where
        *: "frame s2 = frame s1" "error s2 \<noteq> 0"
           "trace s2 = trace s1 @ map (\<lambda>m. region_call env m 0) pre @ [region_call env m (error s2)]"
           "error_stores s2 = error_stores s1 @ replicate (length pre) 0 @ [error s2]"
        by blast
      have st: "error_stores s2 = error_stores s @ replicate (length (units env) + length pre) 0 @ [error s2]"
        using * s1 by (simp add: replicate_add)
      have "adds (\<lambda>e. \<not> entry_event e) s s2"
        unfolding adds_def using *(3) s1(2) by auto
      then show ?thesis using il Inr Inl * s1 stores_zeros_failed[OF st]
        by (simp add: late_post_def regions_def)
    next
      case Inr2: (Inr s2)
      from map_mem_regions_Inr[OF Inr2] have
        s2: "frame s2 = frame s1" "trace s2 = trace s1 @ map (\<lambda>m. region_call env m 0) regions"
          "error_stores s2 = error_stores s1 @ replicate (length regions) 0"
          "error s2 = (if regions = [] then error s1 else 0)"
        by simp_all
      define s' where "s' = init_late env s"
      have s': "s' = log_event (PagingDumpStats ''after late setup'') (log_event ConfigCommit
          (if CONFIG_PAGE_TABLE_PROTECTION env then log_event PagingSetFlag s2 else s2))"
        using il Inr Inr2 by (simp add: s'_def regions_def Let_def)
      have tr: "trace s' = trace s @ unit_events (units env) @ map (\<lambda>m. region_call env m 0) regions @
          (if CONFIG_PAGE_TABLE_PROTECTION env then [PagingSetFlag] else []) @
          [ConfigCommit, PagingDumpStats ''after late setup'']"
        using s' s2 s1 by simp
      have st: "error_stores s' = error_stores s @ replicate (length (units env) + length regions) 0"
        using s' s2 s1 by (simp add: replicate_add)
      have er: "error s' = (if length (units env) + length regions = 0 then error s else 0)"
        using s' s2 s1 by simp
      have fr: "frame s' = frame s" using s' s2 s1 by simp
      have "adds (\<lambda>e. \<not> entry_event e) s s'"
        unfolding adds_def using tr by auto
      then show ?thesis
        using fr tr stores_zeros[OF st er] er unfolding s'_def[symmetric]
        by (simp add: late_post_def)
    qed
  qed
qed

section \<open>Invariants of the interleaved runs of entry\<close>

lemma cnt_update:
  "i < length cs \<Longrightarrow>
   cnt P (cs[i := c']) + (if P (cs ! i) then 1 else 0) = cnt P cs + (if P c' then 1 else 0)"
  unfolding cnt_def
proof (induction cs arbitrary: i)
  case Nil then show ?case by simp
next
  case (Cons a cs) then show ?case by (cases i) auto
qed

lemma cnt_update_same:
  "i < length cs \<Longrightarrow> P (cs ! i) = P c' \<Longrightarrow> cnt P (cs[i := c']) = cnt P cs"
  using cnt_update[of i cs P c'] by (simp split: if_splits)

lemma cnt_update_enter:
  "i < length cs \<Longrightarrow> \<not> P (cs ! i) \<Longrightarrow> P c' \<Longrightarrow> cnt P (cs[i := c']) = Suc (cnt P cs)"
  using cnt_update[of i cs P c'] by simp

lemma cnt_update_leave:
  "i < length cs \<Longrightarrow> P (cs ! i) \<Longrightarrow> \<not> P c' \<Longrightarrow> Suc (cnt P (cs[i := c'])) = cnt P cs"
  using cnt_update[of i cs P c'] by simp

lemma cnt_le: "cnt P cs \<le> length cs"
  by (simp add: cnt_def)

lemma cnt_pos: "i < length cs \<Longrightarrow> P (cs ! i) \<Longrightarrow> 0 < cnt P cs"
  unfolding cnt_def by (metis filter_empty_conv length_greater_0_conv nth_mem)

lemma cnt_all: "cnt P cs = length cs \<Longrightarrow> j < length cs \<Longrightarrow> P (cs ! j)"
  unfolding cnt_def
  by (metis (mono_tags, lifting) filter_id_conv length_filter_less linorder_neq_iff nth_mem)

lemma cnt_unique:
  assumes "cnt P cs \<le> 1" "i < length cs" "j < length cs" "P (cs ! i)" "P (cs ! j)"
  shows "i = j"
proof (rule ccontr)
  assume ne: "i \<noteq> j"
  show False
  proof (cases "\<exists>c. \<not> P c")
    case False
    then have "cnt P cs = length cs" by (simp add: cnt_def)
    then show ?thesis using assms ne by linarith
  next
    case True
    then obtain c where c: "\<not> P c" by blast
    have 1: "Suc (cnt P (cs[i := c])) = cnt P cs"
      using cnt_update_leave[of i cs P c] assms c by simp
    have "P ((cs[i := c]) ! j)" using ne assms by simp
    then have "0 < cnt P (cs[i := c])" using cnt_pos[of j "cs[i := c]" P] assms by simp
    then show ?thesis using 1 assms(1) by linarith
  qed
qed

lemma step_outside: "\<not> i < length (cores sys) \<Longrightarrow> step env i sys = Some sys' \<Longrightarrow> sys' = sys"
  by (simp add: step_def)

lemma step_inside:
  assumes "i < length (cores sys)" "step env i sys = Some sys'"
  obtains c' g' where "core_step env (cores sys ! i) (shared sys) = Some (c', g')"
    "shared sys' = g'" "cores sys' = (cores sys)[i := c']"
  using assms by (auto simp: step_def split: option.splits)

lemma cpu_init_fields [simp]:
  "init_lock (snd (cpu_init env d s)) = init_lock s"
  "master_cpu_id (snd (cpu_init env d s)) = master_cpu_id s"
  "entered_cpus (snd (cpu_init env d s)) = entered_cpus s"
  "activate (snd (cpu_init env d s)) = activate s"
  using cpu_init_effect[of env s d] by (simp_all add: cpu_init_post_def)

lemma init_late_fields [simp]:
  "init_lock (init_late env s) = init_lock s"
  "master_cpu_id (init_late env s) = master_cpu_id s"
  "entered_cpus (init_late env s) = entered_cpus s"
  "initialized_cpus (init_late env s) = initialized_cpus s"
  "activate (init_late env s) = activate s"
  using init_late_effect[of env s] frame_fields[of "init_late env s" s]
  by (simp_all add: late_post_def)

lemma init_early_fields:
  "init_early env cpu s = Some s' \<Longrightarrow>
     master_cpu_id s' = cpu \<and> init_lock s' = init_lock s \<and> entered_cpus s' = entered_cpus s \<and>
     initialized_cpus s' = initialized_cpus s \<and> activate s' = activate s"
  using init_early_effect by blast

lemma rank_simps [simp]:
  "pastc k (c\<lparr>pc := p\<rparr>) = (k \<le> rank p)"
  "pastc k (c\<lparr>cpu_data := d\<rparr>) = pastc k c"
  "pastc k (c\<lparr>master := m\<rparr>) = pastc k c"
  "incs (c\<lparr>pc := p\<rparr>) = in_cs p"
  "incs (c\<lparr>cpu_data := d\<rparr>) = incs c"
  "incs (c\<lparr>master := m\<rparr>) = incs c"
  by (simp_all add: pastc_def incs_def)

lemma in_cs_simps [simp]:
  "in_cs Start = False" "in_cs Lock1 = False" "in_cs IncEntered = True" "in_cs Unlock1 = True"
  "in_cs WaitEntered = False" "in_cs Lock2 = False" "in_cs Elect = True" "in_cs EarlyInit = True"
  "in_cs PerCpuInit = True" "in_cs Unlock2 = True" "in_cs WaitInitialized = False"
  "in_cs Branch261 = False" "in_cs LateInit = False" "in_cs SetActivate = False"
  "in_cs WaitActivate = False" "in_cs CheckError = False" "in_cs DoShutdown = False"
  "in_cs Restore = False" "in_cs Return = False" "in_cs Activate = False"
  "in_cs (Returned e) = False" "in_cs Activated = False"
  by (simp_all add: in_cs_def)

lemma core_step_cases [consumes 1, case_names Start Lock1_spin Lock1 IncEntered Unlock1
    WaitEntered_spin WaitEntered Lock2_spin Lock2 Elect_master Elect_other EarlyInit
    PerCpuInit_run PerCpuInit_skip Unlock2 WaitInitialized_spin WaitInitialized
    Branch261_late Branch261_wait LateInit SetActivate_ok SetActivate_err
    WaitActivate_spin WaitActivate CheckError_shutdown CheckError_restore CheckError_ok
    DoShutdown Restore Return Activate Returned Activated]:
  assumes "core_step env c g = Some (c', g')"
  obtains
    "pc c = Start"
      "c' = c\<lparr>pc := Lock1, cpu_data := (cpu_data c)\<lparr>public_cpu_id := arg_cpu_id c\<rparr>\<rparr>"
      "g' = log_event (Printk ''[PGP]: %d cpu get in entry...'') g"
  | "pc c = Lock1" "init_lock g" "c' = c" "g' = g"
  | "pc c = Lock1" "\<not> init_lock g" "c' = c\<lparr>pc := IncEntered\<rparr>" "g' = g\<lparr>init_lock := True\<rparr>"
  | "pc c = IncEntered" "c' = c\<lparr>pc := Unlock1\<rparr>" "g' = g\<lparr>entered_cpus := entered_cpus g + 1\<rparr>"
  | "pc c = Unlock1" "c' = c\<lparr>pc := WaitEntered\<rparr>" "g' = g\<lparr>init_lock := False\<rparr>"
  | "pc c = WaitEntered" "entered_cpus g < online_cpus (hypervisor_header env)" "c' = c" "g' = g"
  | "pc c = WaitEntered" "\<not> entered_cpus g < online_cpus (hypervisor_header env)"
      "c' = c\<lparr>pc := Lock2\<rparr>" "g' = g"
  | "pc c = Lock2" "init_lock g" "c' = c" "g' = g"
  | "pc c = Lock2" "\<not> init_lock g" "c' = c\<lparr>pc := Elect\<rparr>" "g' = g\<lparr>init_lock := True\<rparr>"
  | "pc c = Elect" "master_cpu_id g = INVALID_CPU_ID env"
      "c' = c\<lparr>pc := EarlyInit, master := True\<rparr>" "g' = g"
  | "pc c = Elect" "master_cpu_id g \<noteq> INVALID_CPU_ID env" "c' = c\<lparr>pc := PerCpuInit\<rparr>" "g' = g"
  | "pc c = EarlyInit" "init_early env (arg_cpu_id c) g = Some g'" "c' = c\<lparr>pc := PerCpuInit\<rparr>"
  | "pc c = PerCpuInit" "error g = 0" "g' = snd (cpu_init env (cpu_data c) g)"
      "c' = c\<lparr>pc := Unlock2, cpu_data := fst (cpu_init env (cpu_data c) g)\<rparr>"
  | "pc c = PerCpuInit" "error g \<noteq> 0" "c' = c\<lparr>pc := Unlock2\<rparr>" "g' = g"
  | "pc c = Unlock2" "c' = c\<lparr>pc := WaitInitialized\<rparr>" "g' = g\<lparr>init_lock := False\<rparr>"
  | "pc c = WaitInitialized" "error g = 0"
      "initialized_cpus g < online_cpus (hypervisor_header env)" "c' = c" "g' = g"
  | "pc c = WaitInitialized"
      "error g \<noteq> 0 \<or> \<not> initialized_cpus g < online_cpus (hypervisor_header env)"
      "c' = c\<lparr>pc := Branch261\<rparr>" "g' = g"
  | "pc c = Branch261" "error g = 0" "master c" "c' = c\<lparr>pc := LateInit\<rparr>" "g' = g"
  | "pc c = Branch261" "error g \<noteq> 0 \<or> \<not> master c" "c' = c\<lparr>pc := WaitActivate\<rparr>" "g' = g"
  | "pc c = LateInit" "c' = c\<lparr>pc := SetActivate\<rparr>" "g' = init_late env g"
  | "pc c = SetActivate" "error g = 0" "c' = c\<lparr>pc := CheckError\<rparr>" "g' = g\<lparr>activate := True\<rparr>"
  | "pc c = SetActivate" "error g \<noteq> 0" "c' = c\<lparr>pc := CheckError\<rparr>" "g' = g"
  | "pc c = WaitActivate" "error g = 0" "\<not> activate g" "c' = c" "g' = g"
  | "pc c = WaitActivate" "error g \<noteq> 0 \<or> activate g" "c' = c\<lparr>pc := CheckError\<rparr>" "g' = g"
  | "pc c = CheckError" "error g \<noteq> 0" "master c" "c' = c\<lparr>pc := DoShutdown\<rparr>" "g' = g"
  | "pc c = CheckError" "error g \<noteq> 0" "\<not> master c" "c' = c\<lparr>pc := Restore\<rparr>" "g' = g"
  | "pc c = CheckError" "error g = 0" "c' = c\<lparr>pc := Activate\<rparr>" "g' = g"
  | "pc c = DoShutdown" "c' = c\<lparr>pc := Restore\<rparr>" "g' = log_event Shutdown g"
  | "pc c = Restore" "c' = c\<lparr>pc := Return\<rparr>"
      "g' = log_event (ArchCpuRestore (arg_cpu_id c) (error g)) g"
  | "pc c = Return" "c' = c\<lparr>pc := Returned (error g)\<rparr>" "g' = g"
  | "pc c = Activate" "c' = c\<lparr>pc := Activated\<rparr>"
      "g' = log_event ArchCpuActivateVmm
             (if master c then log_event (Printk ''Activating hypervisor'') g else g)"
  | e where "pc c = Returned e" "c' = c" "g' = g"
  | "pc c = Activated" "c' = c" "g' = g"
proof (cases "pc c")
  case Start
  show ?thesis
    by (rule that(1)[OF Start]) (use assms Start in \<open>auto simp: core_step_simps\<close>)
next
  case Lock1
  show ?thesis
  proof (cases "init_lock g")
    case True
    show ?thesis
      by (rule that(2)[OF Lock1 True]) (use assms Lock1 True in \<open>auto simp: core_step_simps\<close>)
  next
    case False
    show ?thesis
      by (rule that(3)[OF Lock1 False]) (use assms Lock1 False in \<open>auto simp: core_step_simps\<close>)
  qed
next
  case IncEntered
  show ?thesis
    by (rule that(4)[OF IncEntered]) (use assms IncEntered in \<open>auto simp: core_step_simps\<close>)
next
  case Unlock1
  show ?thesis
    by (rule that(5)[OF Unlock1]) (use assms Unlock1 in \<open>auto simp: core_step_simps\<close>)
next
  case WaitEntered
  show ?thesis
  proof (cases "entered_cpus g < online_cpus (hypervisor_header env)")
    case True
    show ?thesis
      by (rule that(6)[OF WaitEntered True]) (use assms WaitEntered True in \<open>auto simp: core_step_simps\<close>)
  next
    case False
    show ?thesis
      by (rule that(7)[OF WaitEntered False]) (use assms WaitEntered False in \<open>auto simp: core_step_simps\<close>)
  qed
next
  case Lock2
  show ?thesis
  proof (cases "init_lock g")
    case True
    show ?thesis
      by (rule that(8)[OF Lock2 True]) (use assms Lock2 True in \<open>auto simp: core_step_simps\<close>)
  next
    case False
    show ?thesis
      by (rule that(9)[OF Lock2 False]) (use assms Lock2 False in \<open>auto simp: core_step_simps\<close>)
  qed
next
  case Elect
  show ?thesis
  proof (cases "master_cpu_id g = INVALID_CPU_ID env")
    case True
    show ?thesis
      by (rule that(10)[OF Elect True]) (use assms Elect True in \<open>auto simp: core_step_simps\<close>)
  next
    case False
    show ?thesis
      by (rule that(11)[OF Elect False]) (use assms Elect False in \<open>auto simp: core_step_simps\<close>)
  qed
next
  case PerCpuInit
  show ?thesis
  proof (cases "error g = 0")
    case True
    show ?thesis
      by (rule that(13)[OF PerCpuInit True]) (use assms PerCpuInit True in \<open>auto simp: core_step_simps\<close>)
  next
    case False
    show ?thesis
      by (rule that(14)[OF PerCpuInit False]) (use assms PerCpuInit False in \<open>auto simp: core_step_simps\<close>)
  qed
next
  case Unlock2
  show ?thesis
    by (rule that(15)[OF Unlock2]) (use assms Unlock2 in \<open>auto simp: core_step_simps\<close>)
next
  case LateInit
  show ?thesis
    by (rule that(20)[OF LateInit]) (use assms LateInit in \<open>auto simp: core_step_simps\<close>)
next
  case SetActivate
  show ?thesis
  proof (cases "error g = 0")
    case True
    show ?thesis
      by (rule that(21)[OF SetActivate True]) (use assms SetActivate True in \<open>auto simp: core_step_simps\<close>)
  next
    case False
    show ?thesis
      by (rule that(22)[OF SetActivate False]) (use assms SetActivate False in \<open>auto simp: core_step_simps\<close>)
  qed
next
  case DoShutdown
  show ?thesis
    by (rule that(28)[OF DoShutdown]) (use assms DoShutdown in \<open>auto simp: core_step_simps\<close>)
next
  case Restore
  show ?thesis
    by (rule that(29)[OF Restore]) (use assms Restore in \<open>auto simp: core_step_simps\<close>)
next
  case Return
  show ?thesis
    by (rule that(30)[OF Return]) (use assms Return in \<open>auto simp: core_step_simps\<close>)
next
  case Activate
  show ?thesis
    by (rule that(31)[OF Activate]) (use assms Activate in \<open>auto simp: core_step_simps\<close>)
next
  case Activated
  show ?thesis
    by (rule that(33)[OF Activated]) (use assms Activated in \<open>auto simp: core_step_simps\<close>)
next
  case EarlyInit
  show ?thesis
  proof (cases "init_early env (arg_cpu_id c) g")
    case None
    then show ?thesis using assms EarlyInit by (simp add: core_step_simps)
  next
    case (Some s1)
    then have "g' = s1" "c' = c\<lparr>pc := PerCpuInit\<rparr>"
      using assms EarlyInit by (auto simp: core_step_simps)
    then show ?thesis using that(12)[OF EarlyInit] Some by simp
  qed
next
  case WaitInitialized
  show ?thesis
  proof (cases "error g = 0 \<and> initialized_cpus g < online_cpus (hypervisor_header env)")
    case True
    then have "c' = c" "g' = g" using assms WaitInitialized by (auto simp: core_step_simps)
    then show ?thesis using that(16)[OF WaitInitialized] True by simp
  next
    case False
    then have "c' = c\<lparr>pc := Branch261\<rparr>" "g' = g"
      using assms WaitInitialized by (auto simp: core_step_simps)
    then show ?thesis using that(17)[OF WaitInitialized] False by blast
  qed
next
  case Branch261
  show ?thesis
  proof (cases "error g = 0 \<and> master c")
    case True
    then have "c' = c\<lparr>pc := LateInit\<rparr>" "g' = g"
      using assms Branch261 by (auto simp: core_step_simps)
    then show ?thesis using that(18)[OF Branch261] True by simp
  next
    case False
    then have "c' = c\<lparr>pc := WaitActivate\<rparr>" "g' = g"
      using assms Branch261 by (auto simp: core_step_simps)
    then show ?thesis using that(19)[OF Branch261] False by blast
  qed
next
  case WaitActivate
  show ?thesis
  proof (cases "error g = 0 \<and> \<not> activate g")
    case True
    then have "c' = c" "g' = g" using assms WaitActivate by (auto simp: core_step_simps)
    then show ?thesis using that(23)[OF WaitActivate] True by simp
  next
    case False
    then have "c' = c\<lparr>pc := CheckError\<rparr>" "g' = g"
      using assms WaitActivate by (auto simp: core_step_simps)
    then show ?thesis using that(24)[OF WaitActivate] False by blast
  qed
next
  case CheckError
  show ?thesis
  proof (cases "error g = 0")
    case True
    then have "c' = c\<lparr>pc := Activate\<rparr>" "g' = g"
      using assms CheckError by (auto simp: core_step_simps)
    then show ?thesis using that(27)[OF CheckError True] by simp
  next
    case False
    show ?thesis
    proof (cases "master c")
      case True
      then have "c' = c\<lparr>pc := DoShutdown\<rparr>" "g' = g"
        using assms CheckError False by (auto simp: core_step_simps)
      then show ?thesis using that(25)[OF CheckError False True] by simp
    next
      case nm: False
      then have "c' = c\<lparr>pc := Restore\<rparr>" "g' = g"
        using assms CheckError False by (auto simp: core_step_simps)
      then show ?thesis using that(26)[OF CheckError False nm] by simp
    qed
  qed
next
  case (Returned e)
  show ?thesis
    by (rule that(32)[OF Returned]) (use assms Returned in \<open>auto simp: core_step_simps\<close>)
qed

lemma unat_inc_le: "unat (x :: u32) = n \<Longrightarrow> Suc n \<le> unat (y :: u32) \<Longrightarrow> unat (x + 1) = Suc n"
  using unsigned_less[of y, where 'a=nat] by (simp add: unat_word_ariths)

lemma cnt_update_leave':
  "i < length cs \<Longrightarrow> P (cs ! i) \<Longrightarrow> \<not> P c' \<Longrightarrow> cnt P (cs[i := c']) = cnt P cs - 1"
  using cnt_update_leave[of i cs P c'] by simp

lemmas cnt_updates = cnt_update_same cnt_update_enter cnt_update_leave'

lemma inv1_step:
  assumes "inv1 env sys" "step env i sys = Some sys'"
  shows "inv1 env sys'"
proof (cases "i < length (cores sys)")
  case False
  then show ?thesis using assms step_outside by blast
next
  case True
  from step_inside[OF True assms(2)] obtain c' g' where
    st: "core_step env (cores sys ! i) (shared sys) = Some (c', g')"
    and sh: "shared sys' = g'" and co: "cores sys' = (cores sys)[i := c']" by blast
  have bound: "length (cores sys) < 2 ^ 32"
    using assms(1) unsigned_less[of "online_cpus (hypervisor_header env)", where 'a=nat]
    by (simp add: inv1_def)
  note pos = cnt_pos[OF True, of incs] cnt_le[of "pastc 3" "cores sys"]
    cnt_le[of "pastc 3" "(cores sys)[i := c']"]
  have 1: "length (cores sys') = unat (online_cpus (hypervisor_header env))"
    using assms(1) by (simp add: inv1_def co)
  have 2: "\<forall>j < length (cores sys'). arg_cpu_id (cores sys' ! j) \<noteq> INVALID_CPU_ID env"
    using assms(1) True unfolding inv1_def sh co
    by (cases rule: core_step_cases[OF st]) (auto simp: nth_list_update)
  have 3: "cnt incs (cores sys') = (if init_lock (shared sys') then 1 else 0)"
    using assms(1) True pos unfolding inv1_def sh co
    by (cases rule: core_step_cases[OF st])
      (auto simp: cnt_updates incs_def dest!: init_early_fields split: if_splits)
  have 4: "unat (entered_cpus (shared sys')) = cnt (pastc 3) (cores sys')"
    using assms(1) True pos bound unfolding inv1_def sh co
    by (cases rule: core_step_cases[OF st])
      (auto simp: cnt_updates pastc_def
        unat_inc_le[where y = "online_cpus (hypervisor_header env)"]
        dest!: init_early_fields split: if_splits)
  have "unat (entered_cpus (shared sys)) \<le> unat (online_cpus (hypervisor_header env))"
    using assms(1) pos(2) by (simp add: inv1_def)
  then have exit: "\<not> entered_cpus (shared sys) < online_cpus (hypervisor_header env) \<Longrightarrow>
      entered_cpus (shared sys) = online_cpus (hypervisor_header env)"
    by (simp add: word_less_nat_alt word_unat_eq_iff)
  have 5: "\<forall>j < length (cores sys'). 5 \<le> rank (pc (cores sys' ! j)) \<longrightarrow>
         entered_cpus (shared sys') = online_cpus (hypervisor_header env)"
    using assms(1) True exit cnt_all[OF _ True, of "pastc 3"] unfolding inv1_def sh co
    by (cases rule: core_step_cases[OF st])
      (auto simp: nth_list_update pastc_def dest!: init_early_fields split: if_splits)
  show ?thesis
    unfolding inv1_def using 1 2 3 4 5 by blast
qed

lemma cnt_disjoint:
  assumes "\<forall>c. P c \<longrightarrow> R c" "\<forall>c. Q c \<longrightarrow> R c" "\<forall>c. \<not> (P c \<and> Q c)"
  shows "cnt P cs + cnt Q cs \<le> cnt R cs"
  unfolding cnt_def using assms by (induction cs) (auto simp: le_SucI)

lemma cnt_mono_nth:
  "(\<And>j. j < length cs \<Longrightarrow> P (cs ! j) \<Longrightarrow> Q (cs ! j)) \<Longrightarrow> cnt P cs \<le> cnt Q cs"
  unfolding cnt_def
proof (induction cs)
  case Nil then show ?case by simp
next
  case (Cons a cs)
  have "P a \<Longrightarrow> Q a" using Cons.prems[of 0] by simp
  moreover have "length (filter P cs) \<le> length (filter Q cs)"
    using Cons.prems[of "Suc j" for j] by (intro Cons.IH) auto
  ultimately show ?case by auto
qed

lemma pred_simps [simp]:
  "at p (c\<lparr>pc := q\<rparr>) = (q = p)"
  "at p (c\<lparr>cpu_data := d\<rparr>) = at p c"
  "at p (c\<lparr>master := m\<rparr>) = at p c"
  "elected (c\<lparr>pc := q\<rparr>) = (master c \<and> 8 \<le> rank q)"
  "elected (c\<lparr>cpu_data := d\<rparr>) = elected c"
  "elected (c\<lparr>master := m\<rparr>) = (m \<and> 8 \<le> rank (pc c))"
  by (simp_all add: at_def elected_def)

lemma inv2_step:
  assumes "inv1 env sys" "inv2 env sys" "step env i sys = Some sys'"
  shows "inv2 env sys'"
proof (cases "i < length (cores sys)")
  case False
  then show ?thesis using assms step_outside by blast
next
  case True
  from step_inside[OF True assms(3)] obtain c' g' where
    st: "core_step env (cores sys ! i) (shared sys) = Some (c', g')"
    and sh: "shared sys' = g'" and co: "cores sys' = (cores sys)[i := c']" by blast
  let ?cs = "cores sys"
  have valid: "arg_cpu_id (?cs ! i) \<noteq> INVALID_CPU_ID env"
    using assms(1) True by (simp add: inv1_def)
  have cs1: "cnt incs ?cs \<le> 1" using assms(1) by (simp add: inv1_def)
  have "cnt (at EarlyInit) ?cs + cnt (at Elect) ?cs \<le> cnt incs ?cs"
    by (rule cnt_disjoint) (auto simp: at_def incs_def)
  then have no_early: "pc (?cs ! i) = Elect \<Longrightarrow> cnt (at EarlyInit) ?cs = 0"
    using cs1 cnt_pos[OF True, of "at Elect"] by (simp add: at_def)
  note pos = cnt_pos[OF True, of "at EarlyInit"] cnt_pos[OF True, of elected]
    cnt_pos[OF True, of master]
  have 1: "\<forall>j < length (cores sys'). master (cores sys' ! j) \<longrightarrow> 7 \<le> rank (pc (cores sys' ! j))"
    using assms(2) True unfolding inv2_def sh co
    by (cases rule: core_step_cases[OF st]) (auto simp: nth_list_update)
  have 2: "\<forall>j < length (cores sys'). pc (cores sys' ! j) = EarlyInit \<longrightarrow> master (cores sys' ! j)"
    using assms(2) True unfolding inv2_def sh co
    by (cases rule: core_step_cases[OF st]) (auto simp: nth_list_update)
  have 3: "cnt elected (cores sys') =
       (if master_cpu_id (shared sys') = INVALID_CPU_ID env then 0 else 1)"
    using assms(2) True valid pos unfolding inv2_def sh co
    by (cases rule: core_step_cases[OF st])
      (auto simp: cnt_updates elected_def at_def dest!: init_early_fields split: if_splits)
  have 4: "\<forall>j < length (cores sys'). 8 \<le> rank (pc (cores sys' ! j)) \<longrightarrow>
         master_cpu_id (shared sys') \<noteq> INVALID_CPU_ID env"
    using assms(2) True valid unfolding inv2_def sh co
    by (cases rule: core_step_cases[OF st])
      (auto simp: nth_list_update dest!: init_early_fields split: if_splits)
  have 6: "cnt (at EarlyInit) (cores sys') + cnt elected (cores sys') = cnt master (cores sys')"
    using assms(2) True pos no_early unfolding inv2_def sh co
    by (cases rule: core_step_cases[OF st])
      (auto simp: cnt_updates elected_def at_def split: if_splits)
  have 5: "cnt master (cores sys') \<le> 1"
    using assms(2) True pos no_early unfolding inv2_def sh co
    by (cases rule: core_step_cases[OF st])
      (auto simp: cnt_updates elected_def at_def split: if_splits)
  show ?thesis
    unfolding inv2_def using 1 2 3 4 5 6 by blast
qed

lemma committed_simps [simp]:
  "committed (c\<lparr>pc := q\<rparr>) = (master c \<and> 13 \<le> rank q)"
  "committed (c\<lparr>cpu_data := d\<rparr>) = committed c"
  "committed (c\<lparr>master := m\<rparr>) = (m \<and> 13 \<le> rank (pc c))"
  by (simp_all add: committed_def)

lemma cnt_pos_ex: "0 < cnt P cs \<Longrightarrow> \<exists>j < length cs. P (cs ! j)"
  unfolding cnt_def by (metis filter_empty_conv in_set_conv_nth length_greater_0_conv)

lemma write_once_stores:
  assumes "write_once s" "error s = 0" "stores s s'"
  shows "write_once s'"
proof -
  from assms(1,2) obtain k where k: "error_stores s = replicate k 0"
    by (auto simp: write_once_def)
  from assms(3) obtain vs where vs: "error_stores s' = error_stores s @ vs"
    "error s' = last (error s # vs)" "\<forall>v \<in> set (butlast vs). v = 0"
    by (auto simp: stores_def)
  show ?thesis
  proof (cases "vs = []")
    case True
    then show ?thesis using k vs assms(2) unfolding write_once_def
      by (intro exI[of _ k]) simp
  next
    case False
    then have e: "error s' = last vs" using vs(2) by simp
    have bl: "butlast vs = replicate (length vs - 1) 0"
      using vs(3) replicate_length_same[of "butlast vs" 0] by simp
    have split: "vs = butlast vs @ [last vs]" using False by simp
    show ?thesis
    proof (cases "error s' = 0")
      case True
      then have "vs = replicate (length vs - 1) 0 @ [0]" using split e bl by metis
      then have "error_stores s' = replicate (k + (length vs - 1) + 1) 0"
        using k vs(1) by (metis replicate_add replicate_append_same append.assoc
            replicate_Suc replicate_0 Suc_eq_plus1 add.commute)
      then show ?thesis using True unfolding write_once_def
        by (intro exI[of _ "k + (length vs - 1) + 1"]) simp
    next
      case nz: False
      have "error_stores s' = replicate (k + (length vs - 1)) 0 @ [error s']"
        using k vs(1) split e bl by (metis append.assoc replicate_add)
      then show ?thesis using nz unfolding write_once_def by auto
    qed
  qed
qed

lemma adds_mem:
  assumes "adds K s s'" "\<not> K e"
  shows "(e \<in> set (trace s')) = (e \<in> set (trace s))"
  using assms by (auto simp: adds_def)

lemma adds_extends: "adds K s s' \<Longrightarrow> \<exists>evs. trace s' = trace s @ evs"
  by (auto simp: adds_def)

lemma init_early_sum:
  assumes "init_early env cpu s = Some s'"
  shows "master_cpu_id s' = cpu \<and> init_lock s' = init_lock s \<and> entered_cpus s' = entered_cpus s \<and>
     initialized_cpus s' = initialized_cpus s \<and> activate s' = activate s \<and> stores s s' \<and>
     (ConfigCommit \<in> set (trace s')) = (ConfigCommit \<in> set (trace s)) \<and>
     (Shutdown \<in> set (trace s')) = (Shutdown \<in> set (trace s)) \<and>
     (ArchCpuActivateVmm \<in> set (trace s')) = (ArchCpuActivateVmm \<in> set (trace s)) \<and>
     (\<exists>evs. trace s' = trace s @ evs)"
  using init_early_effect[OF assms] adds_mem[of init_event s s'] adds_extends[of init_event s s']
  by simp

lemma cpu_init_trace [simp]:
  "(ConfigCommit \<in> set (trace (snd (cpu_init env d s)))) = (ConfigCommit \<in> set (trace s))"
  "(Shutdown \<in> set (trace (snd (cpu_init env d s)))) = (Shutdown \<in> set (trace s))"
  "(ArchCpuActivateVmm \<in> set (trace (snd (cpu_init env d s)))) =
     (ArchCpuActivateVmm \<in> set (trace s))"
  using cpu_init_effect[of env s d] adds_mem[of init_event s "snd (cpu_init env d s)"]
  by (simp_all add: cpu_init_post_def)

lemma cpu_init_extends: "\<exists>evs. trace (snd (cpu_init env d s)) = trace s @ evs"
  using cpu_init_effect[of env s d] adds_extends by (auto simp: cpu_init_post_def)

lemma cpu_init_outcome:
  assumes "EINVAL env \<noteq> 0" "error s = 0"
  shows "(error (snd (cpu_init env d s)) = 0 \<and>
          error_stores (snd (cpu_init env d s)) = error_stores s \<and>
          initialized_cpus (snd (cpu_init env d s)) = initialized_cpus s + 1)
       \<or> (error (snd (cpu_init env d s)) \<noteq> 0 \<and>
          error_stores (snd (cpu_init env d s)) = error_stores s @ [error (snd (cpu_init env d s))] \<and>
          initialized_cpus (snd (cpu_init env d s)) = initialized_cpus s)"
  using cpu_init_effect[of env s d] assms by (auto simp: cpu_init_post_def)

lemma cpu_init_write_once:
  assumes "EINVAL env \<noteq> 0" "error s = 0" "write_once s"
  shows "write_once (snd (cpu_init env d s))"
proof -
  from assms(2,3) obtain k where k: "error_stores s = replicate k 0"
    by (auto simp: write_once_def)
  from cpu_init_outcome[OF assms(1,2), of d] show ?thesis
    unfolding write_once_def using k by auto
qed

lemma init_late_trace [simp]:
  "(Shutdown \<in> set (trace (init_late env s))) = (Shutdown \<in> set (trace s))"
  "(ArchCpuActivateVmm \<in> set (trace (init_late env s))) = (ArchCpuActivateVmm \<in> set (trace s))"
  using init_late_effect[of env s] adds_mem[of "\<lambda>e. \<not> entry_event e" s "init_late env s"]
  by (simp_all add: late_post_def)

lemma init_late_extends: "\<exists>evs. trace (init_late env s) = trace s @ evs"
  using init_late_effect[of env s] adds_extends by (auto simp: late_post_def)

lemma init_late_outcome:
  assumes "EINVAL env \<noteq> 0" "error s = 0" "ConfigCommit \<notin> set (trace s)"
  shows "(error (init_late env s) = 0) = (ConfigCommit \<in> set (trace (init_late env s)))"
    and "stores s (init_late env s)"
proof -
  from init_late_extends obtain evs where evs: "trace (init_late env s) = trace s @ evs" by blast
  then have d: "drop (length (trace s)) (trace (init_late env s)) = evs" by simp
  from init_late_effect[of env s] show "stores s (init_late env s)" by (simp add: late_post_def)
  from init_late_effect[of env s] assms evs
  show "(error (init_late env s) = 0) = (ConfigCommit \<in> set (trace (init_late env s)))"
    unfolding late_post_def d by (auto split: if_splits)
qed

lemma write_once_simps [simp]:
  "write_once (log_event e s) = write_once s"
  "write_once (s\<lparr>init_lock := b\<rparr>) = write_once s"
  "write_once (s\<lparr>entered_cpus := n\<rparr>) = write_once s"
  "write_once (s\<lparr>activate := b\<rparr>) = write_once s"
  by (simp_all add: write_once_def log_event_def)

lemma core_step_quiet:
  assumes "core_step env c g = Some (c', g')"
    "pc c \<noteq> EarlyInit" "pc c \<noteq> PerCpuInit" "pc c \<noteq> LateInit"
  shows "error g' = error g \<and> error_stores g' = error_stores g \<and>
    initialized_cpus g' = initialized_cpus g \<and> master_cpu_id g' = master_cpu_id g \<and>
    (ConfigCommit \<in> set (trace g')) = (ConfigCommit \<in> set (trace g))"
  using assms(2-) by (cases rule: core_step_cases[OF assms(1)]) auto

lemma core_step_to_LateInit:
  assumes "core_step env c g = Some (c', g')" "pc c' = LateInit"
  shows "pc c = Branch261 \<and> error g = 0 \<and> master c \<and> g' = g"
  using assms(2) by (cases rule: core_step_cases[OF assms(1)]) auto

lemma inv3_step:
  assumes "EINVAL env \<noteq> 0" "inv1 env sys" "inv2 env sys" "inv3 env sys"
    "step env i sys = Some sys'"
  shows "inv3 env sys'"
proof (cases "i < length (cores sys)")
  case False
  then show ?thesis using assms step_outside by blast
next
  case True
  from step_inside[OF True assms(5)] obtain c' g' where
    st: "core_step env (cores sys ! i) (shared sys) = Some (c', g')"
    and sh: "shared sys' = g'" and co: "cores sys' = (cores sys)[i := c']" by blast
  let ?cs = "cores sys" and ?g = "shared sys" and ?on = "online_cpus (hypervisor_header env)"
  have len: "length ?cs = unat ?on" using assms(2) by (simp add: inv1_def)
  have valid: "arg_cpu_id (?cs ! i) \<noteq> INVALID_CPU_ID env"
    using assms(2) True by (simp add: inv1_def)
  have past8: "8 \<le> rank (pc (?cs ! i)) \<Longrightarrow> master_cpu_id ?g \<noteq> INVALID_CPU_ID env"
    using assms(3) True by (simp add: inv2_def)
  have m1: "cnt master ?cs \<le> 1" using assms(3) by (simp add: inv2_def)
  have early0: "pc (?cs ! i) = EarlyInit \<Longrightarrow> error ?g = 0"
    using assms(3,4) cnt_pos[OF True, of "at EarlyInit"]
    by (auto simp: inv2_def inv3_def at_def split: if_splits)
  have d1: "unat (initialized_cpus ?g) \<le> cnt (pastc 9) ?cs"
    and d2: "error ?g = 0 \<Longrightarrow> unat (initialized_cpus ?g) = cnt (pastc 9) ?cs"
    and e3: "\<And>j. j < length ?cs \<Longrightarrow> 11 \<le> rank (pc (?cs ! j)) \<Longrightarrow>
        error ?g \<noteq> 0 \<or> initialized_cpus ?g = ?on"
    and e4: "\<And>j. j < length ?cs \<Longrightarrow> pc (?cs ! j) = LateInit \<or> pc (?cs ! j) = SetActivate \<Longrightarrow>
        master (?cs ! j)"
    and e5: "\<And>j. j < length ?cs \<Longrightarrow> pc (?cs ! j) = LateInit \<Longrightarrow>
        error ?g = 0 \<and> ConfigCommit \<notin> set (trace ?g)"
    and f1: "ConfigCommit \<in> set (trace ?g) \<Longrightarrow> error ?g = 0 \<and> 0 < cnt committed ?cs"
    and wo: "write_once ?g"
    using assms(4) unfolding inv3_def by blast+
  have allpast: "9 \<le> rank (pc (?cs ! i))"
    if "error ?g = 0" "j < length ?cs" "11 \<le> rank (pc (?cs ! j))" for j
  proof -
    have "initialized_cpus ?g = ?on" using e3[OF that(2,3)] that(1) by simp
    then have "cnt (pastc 9) ?cs = length ?cs" using d2[OF that(1)] len by simp
    from cnt_all[OF this True] show ?thesis by (simp add: pastc_def)
  qed
  have commit_past: "9 \<le> rank (pc (?cs ! i))" if "ConfigCommit \<in> set (trace ?g)"
  proof -
    from f1[OF that] cnt_pos_ex[of committed ?cs] obtain j where
      "j < length ?cs" "committed (?cs ! j)" by blast
    then show ?thesis using allpast[of j] f1[OF that] by (simp add: committed_def)
  qed
  have "unat (initialized_cpus ?g) \<le> unat ?on"
    using d1 cnt_le[of "pastc 9" ?cs] len by simp
  then have exit: "\<not> initialized_cpus ?g < ?on \<Longrightarrow> initialized_cpus ?g = ?on"
    by (simp add: word_less_nat_alt word_unat_eq_iff)
  have uniq: "j = i" if "j < length ?cs" "master (?cs ! j)" "master (?cs ! i)" for j
    using cnt_unique[OF m1 that(1) True that(2,3)] .
  have "cnt committed ?cs + cnt (\<lambda>c. master c \<and> \<not> committed c) ?cs \<le> cnt master ?cs"
    by (rule cnt_disjoint) (auto simp: committed_def)
  then have nocommit: "master (?cs ! i) \<Longrightarrow> \<not> committed (?cs ! i) \<Longrightarrow> cnt committed ?cs = 0"
    using m1 cnt_pos[OF True, of "\<lambda>c. master c \<and> \<not> committed c"] by simp
  have newpos: "committed c' \<Longrightarrow> 0 < cnt committed (?cs[i := c'])"
    using cnt_pos[of i "?cs[i := c']" committed] True by simp
  note bnd = cnt_le[of "pastc 9" "?cs[i := c']"]
  note out = cpu_init_outcome[OF assms(1), of ?g "cpu_data (?cs ! i)"]
  have 1: "unat (initialized_cpus (shared sys')) \<le> cnt (pastc 9) (cores sys')"
    using True d1 d2 bnd len out unfolding sh co
    by (cases rule: core_step_cases[OF st])
      (auto simp: cnt_updates pastc_def unat_inc_le[where y = ?on]
        dest!: init_early_sum split: if_splits)
  have 2: "error (shared sys') = 0 \<longrightarrow>
        unat (initialized_cpus (shared sys')) = cnt (pastc 9) (cores sys')"
    using True d1 d2 bnd len out early0 e5[OF True] unfolding sh co
    by (cases rule: core_step_cases[OF st])
      (auto simp: cnt_updates pastc_def unat_inc_le[where y = ?on]
        dest!: init_early_sum split: if_splits)
  have e1: "error ?g \<noteq> 0 \<Longrightarrow> master_cpu_id ?g \<noteq> INVALID_CPU_ID env"
    using assms(4) by (simp add: inv3_def)
  have 3: "error (shared sys') \<noteq> 0 \<longrightarrow> master_cpu_id (shared sys') \<noteq> INVALID_CPU_ID env"
    using True e1 valid past8 unfolding sh co
    by (cases rule: core_step_cases[OF st])
      (auto dest!: init_early_sum split: if_splits)
  have 4: "write_once (shared sys')"
    using True wo early0 e5[OF True] cpu_init_write_once[OF assms(1) _ wo, of "cpu_data (?cs ! i)"]
      write_once_stores[OF wo] init_late_outcome(2)[OF assms(1), of ?g]
    unfolding sh co
    by (cases rule: core_step_cases[OF st])
      (auto dest!: init_early_sum split: if_splits)
  have 5: "\<forall>j < length (cores sys'). 11 \<le> rank (pc (cores sys' ! j)) \<longrightarrow>
        error (shared sys') \<noteq> 0
        \<or> initialized_cpus (shared sys') = online_cpus (hypervisor_header env)"
    using True e3 exit allpast early0 e5[OF True] unfolding sh co
    by (cases rule: core_step_cases[OF st])
      (auto simp: nth_list_update dest!: init_early_sum split: if_splits)
  have 6: "\<forall>j < length (cores sys').
        pc (cores sys' ! j) = LateInit \<or> pc (cores sys' ! j) = SetActivate \<longrightarrow>
        master (cores sys' ! j)"
    using True e4 unfolding sh co
    by (cases rule: core_step_cases[OF st]) (auto simp: nth_list_update)
  have 7: "\<forall>j < length (cores sys'). pc (cores sys' ! j) = LateInit \<longrightarrow>
        error (shared sys') = 0 \<and> ConfigCommit \<notin> set (trace (shared sys'))"
  proof (intro allI impI)
    fix j assume j: "j < length (cores sys')" and pcj: "pc (cores sys' ! j) = LateInit"
    show "error (shared sys') = 0 \<and> ConfigCommit \<notin> set (trace (shared sys'))"
    proof (cases "j = i")
      case True
      then have "pc c' = LateInit" using pcj j co by simp
      from core_step_to_LateInit[OF st this] have
        b: "pc (?cs ! i) = Branch261" "error ?g = 0" "master (?cs ! i)" "g' = ?g" by simp_all
      have "\<not> committed (?cs ! i)" using b(1) by (simp add: committed_def)
      then have "cnt committed ?cs = 0" using nocommit b(3) by simp
      then have "ConfigCommit \<notin> set (trace ?g)" using f1 by auto
      then show ?thesis using b sh by simp
    next
      case False
      then have pj: "pc (?cs ! j) = LateInit" and jl: "j < length ?cs" using pcj j co by simp_all
      from e5[OF jl pj] have z: "error ?g = 0" "ConfigCommit \<notin> set (trace ?g)" by simp_all
      have "9 \<le> rank (pc (?cs ! i))" using allpast[OF z(1) jl] pj by simp
      then have n1: "pc (?cs ! i) \<noteq> EarlyInit" "pc (?cs ! i) \<noteq> PerCpuInit" by auto
      have n2: "pc (?cs ! i) \<noteq> LateInit"
      proof
        assume "pc (?cs ! i) = LateInit"
        then have "master (?cs ! i)" using e4[OF \<open>i < length ?cs\<close>] by simp
        moreover have "master (?cs ! j)" using e4[OF jl] pj by simp
        ultimately show False using uniq[OF jl] False by simp
      qed
      from core_step_quiet[OF st n1 n2] z show ?thesis using sh by simp
    qed
  qed
  have 8: "ConfigCommit \<in> set (trace (shared sys')) \<longrightarrow>
        error (shared sys') = 0 \<and> 0 < cnt committed (cores sys')"
    using True f1 commit_past e4[OF True] e5[OF True] newpos
      init_late_outcome(1)[OF assms(1), of ?g] cnt_pos[OF True, of committed]
    unfolding sh co
    by (cases rule: core_step_cases[OF st])
      (auto simp: cnt_updates committed_def dest!: init_early_sum split: if_splits)
  show ?thesis
    unfolding inv3_def using 1 2 3 4 5 6 7 8 by blast
qed

lemma restored_simps [simp]:
  "restored s (c\<lparr>pc := p\<rparr>) = restored s c"
  by (simp add: restored_def)

lemma restored_new:
  "master c \<longrightarrow> Shutdown \<in> set (trace s) \<Longrightarrow>
   restored (log_event (ArchCpuRestore (arg_cpu_id c) (error s)) s) c"
  unfolding restored_def
  by (intro exI[of _ "trace s"] exI[of _ "[]"]) simp

lemma restored_stable:
  assumes "restored s c" "trace s' = trace s @ evs" "error s' = error s"
  shows "restored s' c"
proof -
  from assms(1) obtain t1 t2 where
    "trace s = t1 @ ArchCpuRestore (arg_cpu_id c) (error s) # t2" "master c \<longrightarrow> Shutdown \<in> set t1"
    by (auto simp: restored_def)
  then show ?thesis unfolding restored_def using assms(2,3)
    by (intro exI[of _ t1] exI[of _ "t2 @ evs"]) simp
qed

lemma core_step_extends:
  assumes "core_step env c g = Some (c', g')"
  shows "\<exists>evs. trace g' = trace g @ evs"
  using init_late_extends[of env g] cpu_init_extends[of env "cpu_data c" g]
  by (cases rule: core_step_cases[OF assms]) (auto dest!: init_early_sum)

lemma core_step_locals:
  assumes "core_step env c g = Some (c', g')"
  shows "arg_cpu_id c' = arg_cpu_id c" "master c \<Longrightarrow> master c'"
    "pc c \<noteq> Elect \<Longrightarrow> master c' = master c"
proof -
  show "arg_cpu_id c' = arg_cpu_id c"
    by (cases rule: core_step_cases[OF assms]) simp_all
  show "master c \<Longrightarrow> master c'"
    by (cases rule: core_step_cases[OF assms]) simp_all
  show "pc c \<noteq> Elect \<Longrightarrow> master c' = master c"
    by (cases rule: core_step_cases[OF assms]) simp_all
qed

lemma core_step_activate_mono:
  assumes "core_step env c g = Some (c', g')" "activate g"
  shows "activate g'"
  using assms(2)
  by (cases rule: core_step_cases[OF assms(1)]) (auto dest!: init_early_sum)

lemma exit_ok_stable:
  assumes "exit_ok s d"
    and w: "error s \<noteq> 0 \<Longrightarrow> error s' = error s"
    and ext: "trace s' = trace s @ evs"
    and act: "activate s \<Longrightarrow> activate s'"
    and quiet: "pc d = Activate \<or> pc d = Activated \<Longrightarrow> error s' = error s"
  shows "exit_ok s' d"
proof -
  have a1: "pc d = SetActivate \<and> error s = 0 \<longrightarrow> ConfigCommit \<in> set (trace s)"
    and a2: "15 \<le> rank (pc d) \<and> error s = 0 \<longrightarrow> activate s"
    and a3: "pc d = Activate \<or> pc d = Activated \<longrightarrow> error s = 0"
    and a4: "pc d = DoShutdown \<or> pc d = Restore \<or> pc d = Return \<longrightarrow> error s \<noteq> 0"
    and a5: "pc d = DoShutdown \<longrightarrow> master d"
    and a6: "\<forall>e. pc d = Returned e \<longrightarrow> e = error s \<and> e \<noteq> 0"
    and a7: "pc d = Return \<or> (\<exists>e. pc d = Returned e) \<longrightarrow> restored s d"
    and a8: "pc d = Restore \<and> master d \<longrightarrow> Shutdown \<in> set (trace s)"
    using assms(1) unfolding exit_ok_def by blast+
  have z: "error s' = 0 \<Longrightarrow> error s = 0" using w by force
  have r: "restored s d \<Longrightarrow> error s \<noteq> 0 \<Longrightarrow> restored s' d"
    using restored_stable[OF _ ext] w by simp
  have b1: "pc d = SetActivate \<and> error s' = 0 \<longrightarrow> ConfigCommit \<in> set (trace s')"
    using a1 z ext by auto
  have b2: "15 \<le> rank (pc d) \<and> error s' = 0 \<longrightarrow> activate s'"
    using a2 z act by blast
  have b3: "pc d = Activate \<or> pc d = Activated \<longrightarrow> error s' = 0"
    using a3 quiet by auto
  have b4: "pc d = DoShutdown \<or> pc d = Restore \<or> pc d = Return \<longrightarrow> error s' \<noteq> 0"
    using a4 w by auto
  have b6: "\<forall>e. pc d = Returned e \<longrightarrow> e = error s' \<and> e \<noteq> 0"
    using a6 w by auto
  have b7: "pc d = Return \<or> (\<exists>e. pc d = Returned e) \<longrightarrow> restored s' d"
    using a7 a4 a6 r by blast
  have b8: "pc d = Restore \<and> master d \<longrightarrow> Shutdown \<in> set (trace s')"
    using a8 ext by auto
  show ?thesis
    unfolding exit_ok_def using b1 b2 b3 b4 a5 b6 b7 b8 by blast
qed

lemma inv_early0:
  assumes "inv2 env sys" "inv3 env sys" "i < length (cores sys)" "pc (cores sys ! i) = EarlyInit"
  shows "error (shared sys) = 0"
  using assms(1,2,4) cnt_pos[OF assms(3), of "at EarlyInit"]
  by (auto simp: inv2_def inv3_def at_def split: if_splits)

lemma inv_allpast:
  assumes "inv1 env sys" "inv3 env sys" "error (shared sys) = 0"
    "j < length (cores sys)" "11 \<le> rank (pc (cores sys ! j))" "i < length (cores sys)"
  shows "9 \<le> rank (pc (cores sys ! i))"
proof -
  have "initialized_cpus (shared sys) = online_cpus (hypervisor_header env)"
    using assms(2-5) unfolding inv3_def by blast
  moreover have "unat (initialized_cpus (shared sys)) = cnt (pastc 9) (cores sys)"
    using assms(2,3) unfolding inv3_def by blast
  moreover have "length (cores sys) = unat (online_cpus (hypervisor_header env))"
    using assms(1) unfolding inv1_def by blast
  ultimately have "cnt (pastc 9) (cores sys) = length (cores sys)" by simp
  from cnt_all[OF this assms(6)] show ?thesis by (simp add: pastc_def)
qed

lemma inv_commit_past:
  assumes "inv1 env sys" "inv3 env sys" "ConfigCommit \<in> set (trace (shared sys))"
    "i < length (cores sys)"
  shows "9 \<le> rank (pc (cores sys ! i))" "pc (cores sys ! i) \<noteq> LateInit"
proof -
  have f1: "error (shared sys) = 0" "0 < cnt committed (cores sys)"
    using assms(2,3) unfolding inv3_def by blast+
  from cnt_pos_ex[OF f1(2)] obtain j where
    j: "j < length (cores sys)" "committed (cores sys ! j)" by blast
  then have "11 \<le> rank (pc (cores sys ! j))" by (simp add: committed_def)
  from inv_allpast[OF assms(1,2) f1(1) j(1) this assms(4)]
  show "9 \<le> rank (pc (cores sys ! i))" .
  show "pc (cores sys ! i) \<noteq> LateInit"
    using assms(2,3,4) unfolding inv3_def by blast
qed

lemma step_error_fixed:
  assumes "inv2 env sys" "inv3 env sys" "i < length (cores sys)"
    and st: "core_step env (cores sys ! i) (shared sys) = Some (c', g')"
    and nz: "error (shared sys) \<noteq> 0"
  shows "error g' = error (shared sys) \<and> error_stores g' = error_stores (shared sys)"
proof -
  have n1: "pc (cores sys ! i) \<noteq> EarlyInit"
    using inv_early0[OF assms(1,2,3)] nz by blast
  have n2: "pc (cores sys ! i) \<noteq> LateInit"
    using assms(2,3) nz unfolding inv3_def by blast
  show ?thesis
  proof (cases "pc (cores sys ! i) = PerCpuInit")
    case True
    then show ?thesis using nz by (cases rule: core_step_cases[OF st]) simp_all
  next
    case False
    from core_step_quiet[OF st n1 False n2] show ?thesis by simp
  qed
qed

lemma exit_ok_step:
  assumes st: "core_step env c g = Some (c', g')"
    and x: "exit_ok g c"
    and ei: "EINVAL env \<noteq> 0"
    and e5: "pc c = LateInit \<Longrightarrow> error g = 0 \<and> ConfigCommit \<notin> set (trace g)"
  shows "exit_ok g' c'"
proof -
  have a1: "pc c = SetActivate \<and> error g = 0 \<longrightarrow> ConfigCommit \<in> set (trace g)"
    and a2: "15 \<le> rank (pc c) \<and> error g = 0 \<longrightarrow> activate g"
    and a3: "pc c = Activate \<or> pc c = Activated \<longrightarrow> error g = 0"
    and a4: "pc c = DoShutdown \<or> pc c = Restore \<or> pc c = Return \<longrightarrow> error g \<noteq> 0"
    and a5: "pc c = DoShutdown \<longrightarrow> master c"
    and a6: "\<forall>e. pc c = Returned e \<longrightarrow> e = error g \<and> e \<noteq> 0"
    and a7: "pc c = Return \<or> (\<exists>e. pc c = Returned e) \<longrightarrow> restored g c"
    and a8: "pc c = Restore \<and> master c \<longrightarrow> Shutdown \<in> set (trace g)"
    using x unfolding exit_ok_def by blast+
  note late = init_late_outcome(1)[OF ei, of g]
  have b1: "pc c' = SetActivate \<and> error g' = 0 \<longrightarrow> ConfigCommit \<in> set (trace g')"
    using a1 e5 late by (cases rule: core_step_cases[OF st]) auto
  have b2: "15 \<le> rank (pc c') \<and> error g' = 0 \<longrightarrow> activate g'"
    using a2 by (cases rule: core_step_cases[OF st]) auto
  have b3: "pc c' = Activate \<or> pc c' = Activated \<longrightarrow> error g' = 0"
    using a3 by (cases rule: core_step_cases[OF st]) auto
  have b4: "pc c' = DoShutdown \<or> pc c' = Restore \<or> pc c' = Return \<longrightarrow> error g' \<noteq> 0"
    using a4 by (cases rule: core_step_cases[OF st]) auto
  have b5: "pc c' = DoShutdown \<longrightarrow> master c'"
    using a5 by (cases rule: core_step_cases[OF st]) auto
  have b6: "\<forall>e. pc c' = Returned e \<longrightarrow> e = error g' \<and> e \<noteq> 0"
    using a6 a4 by (cases rule: core_step_cases[OF st]) auto
  have b7: "pc c' = Return \<or> (\<exists>e. pc c' = Returned e) \<longrightarrow> restored g' c'"
    using a7 a8 restored_new[of c g] by (cases rule: core_step_cases[OF st]) auto
  have b8: "pc c' = Restore \<and> master c' \<longrightarrow> Shutdown \<in> set (trace g')"
    using a8 by (cases rule: core_step_cases[OF st]) auto
  show ?thesis
    unfolding exit_ok_def using b1 b2 b3 b4 b5 b6 b7 b8 by blast
qed

lemma inv4_step:
  assumes "EINVAL env \<noteq> 0" "inv1 env sys" "inv2 env sys" "inv3 env sys" "inv4 env sys"
    "step env i sys = Some sys'"
  shows "inv4 env sys'"
proof (cases "i < length (cores sys)")
  case False
  then show ?thesis using assms step_outside by blast
next
  case True
  from step_inside[OF True assms(6)] obtain c' g' where
    st: "core_step env (cores sys ! i) (shared sys) = Some (c', g')"
    and sh: "shared sys' = g'" and co: "cores sys' = (cores sys)[i := c']" by blast
  let ?cs = "cores sys" and ?g = "shared sys"
  have x: "\<And>j. j < length ?cs \<Longrightarrow> exit_ok ?g (?cs ! j)"
    and f2: "activate ?g = (ConfigCommit \<in> set (trace ?g) \<and> cnt (at SetActivate) ?cs = 0)"
    and f6: "ArchCpuActivateVmm \<in> set (trace ?g) \<longrightarrow> activate ?g"
    using assms(5) unfolding inv4_def by blast+
  have e4: "\<And>j. j < length ?cs \<Longrightarrow> pc (?cs ! j) = LateInit \<or> pc (?cs ! j) = SetActivate \<Longrightarrow>
        master (?cs ! j)"
    and e5: "pc (?cs ! i) = LateInit \<Longrightarrow>
        error ?g = 0 \<and> ConfigCommit \<notin> set (trace ?g)"
    and f1: "ConfigCommit \<in> set (trace ?g) \<Longrightarrow> error ?g = 0"
    using assms(4) True unfolding inv3_def by blast+
  have m1: "cnt master ?cs \<le> 1" using assms(3) by (simp add: inv2_def)
  have "cnt (at SetActivate) ?cs \<le> cnt master ?cs"
    by (rule cnt_mono_nth) (use e4 in \<open>auto simp: at_def\<close>)
  then have sa1: "cnt (at SetActivate) ?cs \<le> 1" using m1 by simp
  from core_step_extends[OF st] obtain evs where ext: "trace g' = trace ?g @ evs" by blast
  have w: "error ?g \<noteq> 0 \<Longrightarrow> error g' = error ?g"
    using step_error_fixed[OF assms(3,4) True st] by simp
  have act: "activate ?g \<Longrightarrow> activate g'" using core_step_activate_mono[OF st] .
  have quiet: "error g' = error ?g"
    if "j < length ?cs" "pc (?cs ! j) = Activate \<or> pc (?cs ! j) = Activated" for j
  proof -
    have xj: "exit_ok ?g (?cs ! j)" using x that(1) by simp
    have z: "error ?g = 0" using xj that(2) unfolding exit_ok_def by blast
    have "15 \<le> rank (pc (?cs ! j))" using that(2) by auto
    then have "activate ?g" using xj z unfolding exit_ok_def by blast
    then have cm: "ConfigCommit \<in> set (trace ?g)" using f2 by simp
    from inv_commit_past[OF assms(2,4) cm True] have
      "9 \<le> rank (pc (?cs ! i))" "pc (?cs ! i) \<noteq> LateInit" by simp_all
    then have "pc (?cs ! i) \<noteq> EarlyInit" "pc (?cs ! i) \<noteq> PerCpuInit" "pc (?cs ! i) \<noteq> LateInit"
      by auto
    from core_step_quiet[OF st this] show ?thesis by simp
  qed
  have 1: "\<forall>j < length (cores sys'). exit_ok (shared sys') (cores sys' ! j)"
  proof (intro allI impI)
    fix j assume j: "j < length (cores sys')"
    show "exit_ok (shared sys') (cores sys' ! j)"
    proof (cases "j = i")
      case True
      then show ?thesis
        using exit_ok_step[OF st x[OF \<open>i < length ?cs\<close>] assms(1) e5] j co sh by simp
    next
      case False
      then have "cores sys' ! j = ?cs ! j" "j < length ?cs" using j co by simp_all
      then show ?thesis
        using exit_ok_stable[OF x[of j] w ext act quiet[of j]] sh by simp
    qed
  qed
  have x1: "pc (?cs ! i) = SetActivate \<Longrightarrow> error ?g = 0 \<Longrightarrow> ConfigCommit \<in> set (trace ?g)"
    and x2: "pc (?cs ! i) = Activate \<Longrightarrow> activate ?g"
    using x[OF True] unfolding exit_ok_def by auto
  note pos = cnt_pos[OF True, of "at SetActivate"]
  note late = init_late_outcome(1)[OF assms(1), of ?g]
  have 2: "activate (shared sys') =
       (ConfigCommit \<in> set (trace (shared sys')) \<and> cnt (at SetActivate) (cores sys') = 0)"
    using True f2 f1 e5 x1 sa1 pos late unfolding sh co
    by (cases rule: core_step_cases[OF st])
      (auto simp: cnt_updates at_def dest!: init_early_sum split: if_splits)
  have 3: "ArchCpuActivateVmm \<in> set (trace (shared sys')) \<longrightarrow> activate (shared sys')"
    using True f6 x2 unfolding sh co
    by (cases rule: core_step_cases[OF st])
      (auto dest!: init_early_sum split: if_splits)
  show ?thesis
    unfolding inv4_def using 1 2 3 by blast
qed

lemma cnt_none: "(\<And>c. c \<in> set cs \<Longrightarrow> \<not> P c) \<Longrightarrow> cnt P cs = 0"
  by (simp add: cnt_def)

lemma boot_cores:
  "c \<in> set (cores (boot env args)) \<Longrightarrow> pc c = Start \<and> \<not> master c"
  by (auto simp: boot_def)

lemma boot_nth:
  "j < length args \<Longrightarrow> pc (cores (boot env args) ! j) = Start \<and>
     \<not> master (cores (boot env args) ! j) \<and>
     arg_cpu_id (cores (boot env args) ! j) = fst (args ! j)"
  by (simp add: boot_def split: prod.splits)

lemma boot_shared [simp]: "shared (boot env args) = globals0 env"
  by (simp add: boot_def)

lemma boot_length [simp]: "length (cores (boot env args)) = length args"
  by (simp add: boot_def)

lemma invs_boot:
  assumes "wf_boot env args"
  shows "invs env (boot env args)"
proof -
  have c0: "cnt P (cores (boot env args)) = 0" if "\<And>c. pc c = Start \<Longrightarrow> \<not> master c \<Longrightarrow> \<not> P c" for P
    using that boot_cores by (intro cnt_none) blast
  have 1: "inv1 env (boot env args)"
    using assms c0[of incs] c0[of "pastc 3"] boot_nth[of _ args env]
    by (auto simp: inv1_def wf_boot_def globals0_def incs_def pastc_def)
  have 2: "inv2 env (boot env args)"
    using c0[of elected] c0[of master] c0[of "at EarlyInit"] boot_nth[of _ args env]
    by (auto simp: inv2_def globals0_def elected_def at_def)
  have 3: "inv3 env (boot env args)"
    using c0[of "pastc 9"] boot_nth[of _ args env]
    by (auto simp: inv3_def globals0_def pastc_def write_once_def)
  have 4: "inv4 env (boot env args)"
    using boot_nth[of _ args env]
    by (auto simp: inv4_def globals0_def exit_ok_def)
  show ?thesis using 1 2 3 4 by (simp add: invs_def)
qed

lemma invs_step:
  assumes "EINVAL env \<noteq> 0" "invs env sys" "step env i sys = Some sys'"
  shows "invs env sys'"
  using assms inv1_step inv2_step inv3_step inv4_step unfolding invs_def by blast

lemma invs_run:
  assumes "EINVAL env \<noteq> 0"
  shows "invs env sys \<Longrightarrow> run env sched sys = Some sys' \<Longrightarrow> invs env sys'"
proof (induction sched arbitrary: sys)
  case Nil then show ?case by simp
next
  case (Cons i sched)
  from Cons.prems(2) obtain sys1 where s1: "step env i sys = Some sys1"
    and r: "run env sched sys1 = Some sys'" by (auto split: option.splits)
  from invs_step[OF assms Cons.prems(1) s1] Cons.IH r show ?case by blast
qed

lemma invs_reachable:
  assumes "wf_boot env args" "run env sched (boot env args) = Some sys"
  shows "invs env sys"
  using invs_run[OF _ invs_boot[OF assms(1)] assms(2)] assms(1) by (simp add: wf_boot_def)

section \<open>Progress of the cores and the example runs\<close>

lemma set_nth_iff: "(\<forall>c \<in> set cs. P c) = (\<forall>j < length cs. P (cs ! j))"
  by (metis in_set_conv_nth)

lemma rank_7: "rank p = 7 \<Longrightarrow> p = EarlyInit"
  by (cases p) simp_all

lemma inv_lock_held:
  assumes "inv1 env sys" "i < length (cores sys)" "in_cs (pc (cores sys ! i))"
  shows "init_lock (shared sys)"
  using assms(1) cnt_pos[OF assms(2), of incs] assms(3)
  by (auto simp: inv1_def incs_def split: if_splits)

lemma core_step_counters:
  assumes "core_step env c g = Some (c', g')"
  shows "(entered_cpus g' = entered_cpus g \<or> entered_cpus g' = entered_cpus g + 1 \<and> pc c = IncEntered)
       \<and> (initialized_cpus g' = initialized_cpus g
           \<or> initialized_cpus g' = initialized_cpus g + 1 \<and> pc c = PerCpuInit)"
  using cpu_init_effect[of env g "cpu_data c"]
  by (cases rule: core_step_cases[OF assms])
    (auto simp: cpu_init_post_def dest!: init_early_sum)

lemma core_step_rank:
  assumes "core_step env c g = Some (c', g')"
  shows "rank (pc c) \<le> rank (pc c')"
  by (cases rule: core_step_cases[OF assms]) simp_all

lemma core_step_master_id:
  assumes "core_step env c g = Some (c', g')" "pc c \<noteq> EarlyInit"
  shows "master_cpu_id g' = master_cpu_id g"
  using assms(2) by (cases rule: core_step_cases[OF assms(1)]) simp_all

lemma core_step_elected:
  assumes "core_step env c g = Some (c', g')" "elected c'" "pc c \<noteq> EarlyInit"
    "master c \<longrightarrow> 7 \<le> rank (pc c)"
  shows "elected c"
  using assms(2-)
  by (cases rule: core_step_cases[OF assms(1)]) (auto simp: elected_def)

lemma inv5_step:
  assumes "inv2 env sys" "inv5 env sys" "step env i sys = Some sys'"
  shows "inv5 env sys'"
proof (cases "i < length (cores sys)")
  case False
  then show ?thesis using assms step_outside by blast
next
  case True
  from step_inside[OF True assms(3)] obtain c' g' where
    st: "core_step env (cores sys ! i) (shared sys) = Some (c', g')"
    and sh: "shared sys' = g'" and co: "cores sys' = (cores sys)[i := c']" by blast
  have m7: "master (cores sys ! i) \<longrightarrow> 7 \<le> rank (pc (cores sys ! i))"
    using assms(1) True unfolding inv2_def by blast
  have "master_cpu_id g' = arg_cpu_id ((cores sys)[i := c'] ! j)"
    if j: "j < length (cores sys)" and e: "elected ((cores sys)[i := c'] ! j)" for j
  proof (cases "pc (cores sys ! i) = EarlyInit")
    case early: True
    have mi: "master (cores sys ! i)" using assms(1) True early unfolding inv2_def by blast
    have "j = i"
    proof (rule ccontr)
      assume "j \<noteq> i"
      then have "master (cores sys ! j)" using e by (simp add: elected_def)
      moreover have "cnt master (cores sys) \<le> 1" using assms(1) unfolding inv2_def by blast
      ultimately show False
        using cnt_unique[of master "cores sys" j i] j True mi \<open>j \<noteq> i\<close> by blast
    qed
    then show ?thesis using True early
      by (cases rule: core_step_cases[OF st]) (auto dest!: init_early_fields)
  next
    case False
    note mid = core_step_master_id[OF st False]
    show ?thesis
    proof (cases "j = i")
      case True
      then have "elected c'" using e j by simp
      from core_step_elected[OF st this False m7]
      have "master_cpu_id (shared sys) = arg_cpu_id (cores sys ! i)"
        using assms(2) \<open>i < length (cores sys)\<close> unfolding inv5_def by blast
      then show ?thesis using mid True j core_step_locals(1)[OF st] by simp
    next
      case ne: False
      then have "elected (cores sys ! j)" using e by simp
      then have "master_cpu_id (shared sys) = arg_cpu_id (cores sys ! j)"
        using assms(2) j unfolding inv5_def by blast
      then show ?thesis using mid ne by simp
    qed
  qed
  then show ?thesis unfolding inv5_def sh co by simp
qed

lemma inv5_run:
  assumes "EINVAL env \<noteq> 0"
  shows "invs env sys \<Longrightarrow> inv5 env sys \<Longrightarrow> run env sched sys = Some sys' \<Longrightarrow> inv5 env sys'"
proof (induction sched arbitrary: sys)
  case Nil then show ?case by simp
next
  case (Cons i sched)
  from Cons.prems(3) obtain sys1 where s1: "step env i sys = Some sys1"
    and r: "run env sched sys1 = Some sys'" by (auto split: option.splits)
  have "inv5 env sys1" using inv5_step[OF _ Cons.prems(2) s1] Cons.prems(1)
    by (simp add: invs_def)
  with invs_step[OF assms Cons.prems(1) s1] Cons.IH r show ?case by blast
qed

lemma inv5_reachable:
  assumes "wf_boot env args" "run env sched (boot env args) = Some sys"
  shows "inv5 env sys"
proof -
  have "inv5 env (boot env args)"
    using boot_nth[of _ args env] by (auto simp: inv5_def elected_def)
  from inv5_run[OF _ invs_boot[OF assms(1)] this assms(2)] assms(1)
  show ?thesis by (simp add: wf_boot_def)
qed

lemma cnt_less: "i < length cs \<Longrightarrow> \<not> P (cs ! i) \<Longrightarrow> cnt P cs < length cs"
  using cnt_all[of P cs i] cnt_le[of P cs] by (cases "cnt P cs = length cs") auto

lemma word_inc_less: "unat (x :: u32) < unat (y :: u32) \<Longrightarrow> x < x + 1"
  by (metis unat_inc_le Suc_leI lessI word_less_nat_alt)

lemma core_step_init_inc:
  assumes "core_step env c g = Some (c', g')" "initialized_cpus g' \<noteq> initialized_cpus g"
  shows "initialized_cpus g' = initialized_cpus g + 1 \<and> pc c = PerCpuInit \<and> error g = 0
         \<and> error g' = 0"
  using cpu_init_effect[of env g "cpu_data c"] assms(2)
  by (cases rule: core_step_cases[OF assms(1)])
    (auto simp: cpu_init_post_def dest!: init_early_fields split: if_splits)

lemma core_step_incs:
  assumes "core_step env c g = Some (c', g')" "EINVAL env \<noteq> 0"
  shows "(pc c = IncEntered \<longrightarrow> entered_cpus g' = entered_cpus g + 1)
       \<and> (pc c = PerCpuInit \<longrightarrow> error g' = 0 \<longrightarrow>
            initialized_cpus g' = initialized_cpus g + 1)"
  using cpu_init_effect[of env g "cpu_data c"] assms(2)
  by (cases rule: core_step_cases[OF assms(1)]) (auto simp: cpu_init_post_def)

lemma rank_le_20: "rank p \<le> 20"
  by (cases p) simp_all

lemma rank_20: "rank p = 20 \<Longrightarrow> p = Activated \<or> (\<exists>e. p = Returned e)"
  by (cases p) simp_all

lemma core_step_progress:
  assumes "core_step env c g = Some (c', g')"
  shows "c' = c \<and> g' = g \<or> rank (pc c) < rank (pc c')"
  by (cases rule: core_step_cases[OF assms]) simp_all

lemma remaining_update:
  assumes "i < length (cores sys)" "rank (pc (cores sys ! i)) < rank (pc c')"
  shows "remaining \<lparr>shared = g', cores = (cores sys)[i := c']\<rparr> < remaining sys"
proof -
  let ?f = "\<lambda>c. 20 - rank (pc c)"
  have "?f (cores sys ! i) \<in> set (map ?f (cores sys))" using assms(1) by simp
  then have le: "?f (cores sys ! i) \<le> sum_list (map ?f (cores sys))"
    by (simp add: member_le_sum_list)
  have "sum_list (map ?f ((cores sys)[i := c'])) =
        sum_list (map ?f (cores sys)) + ?f c' - ?f (cores sys ! i)"
    using assms(1) by (simp add: map_update sum_list_update)
  moreover have "?f c' < ?f (cores sys ! i)"
    using assms(2) rank_le_20[of "pc c'"] by simp
  ultimately show ?thesis using le by (simp add: remaining_def)
qed

lemma step_progress:
  assumes "step env i sys = Some sys'"
  shows "sys' = sys \<or> remaining sys' < remaining sys"
proof (cases "i < length (cores sys)")
  case False
  then show ?thesis using step_outside[OF False assms] by simp
next
  case True
  from step_inside[OF True assms] obtain c' g' where
    st: "core_step env (cores sys ! i) (shared sys) = Some (c', g')"
    and sh: "shared sys' = g'" and co: "cores sys' = (cores sys)[i := c']" by blast
  have eq: "sys' = \<lparr>shared = g', cores = (cores sys)[i := c']\<rparr>" using sh co by simp
  from core_step_progress[OF st] show ?thesis
  proof
    assume "c' = cores sys ! i \<and> g' = shared sys"
    then show ?thesis using eq by simp
  next
    assume "rank (pc (cores sys ! i)) < rank (pc c')"
    from remaining_update[OF True this] show ?thesis using eq by simp
  qed
qed

lemma enabledI:
  assumes "i < length (cores sys)"
    "\<And>c' g'. core_step env (cores sys ! i) (shared sys) = Some (c', g') \<Longrightarrow>
       rank (pc (cores sys ! i)) < rank (pc c')"
  shows "enabled env sys i"
  unfolding enabled_def
proof (intro conjI allI impI)
  fix sys' assume s: "step env i sys = Some sys'"
  from step_inside[OF assms(1) s] obtain c' g' where
    st: "core_step env (cores sys ! i) (shared sys) = Some (c', g')"
    and sh: "shared sys' = g'" and co: "cores sys' = (cores sys)[i := c']" by blast
  have eq: "sys' = \<lparr>shared = g', cores = (cores sys)[i := c']\<rparr>" using sh co by simp
  from remaining_update[OF assms(1) assms(2)[OF st]] show "remaining sys' < remaining sys"
    using eq by simp
qed (rule assms(1))

lemma step_total_error:
  assumes "invs env sys" "error (shared sys) \<noteq> 0"
  shows "\<exists>sys'. step env i sys = Some sys'"
proof (cases "i < length (cores sys)")
  case False then show ?thesis by (simp add: step_def)
next
  case True
  have "pc (cores sys ! i) \<noteq> EarlyInit"
    using inv_early0[OF _ _ True] assms by (auto simp: invs_def)
  then have "core_step env (cores sys ! i) (shared sys) \<noteq> None"
    by (cases "pc (cores sys ! i)") (simp_all add: core_step_simps)
  then show ?thesis using True by (auto simp: step_def)
qed

lemma remaining_0:
  assumes "remaining sys = 0" "c \<in> set (cores sys)"
  shows "rank (pc c) = 20"
  using assms rank_le_20[of "pc c"] by (auto simp: remaining_def)

lemma remaining_pos:
  assumes "0 < remaining sys"
  shows "\<exists>j < length (cores sys). rank (pc (cores sys ! j)) < 20"
proof (rule ccontr)
  assume neg: "\<not> ?thesis"
  have "20 - rank (pc c) = 0" if "c \<in> set (cores sys)" for c
  proof -
    from that obtain j where "j < length (cores sys)" "cores sys ! j = c"
      by (auto simp: in_set_conv_nth)
    with neg have "\<not> rank (pc c) < 20" by blast
    then show ?thesis by simp
  qed
  then have "remaining sys = 0" by (simp add: remaining_def)
  then show False using assms by simp
qed

lemma error_enabled:
  assumes inv: "invs env sys" and nz: "error (shared sys) \<noteq> 0" and pos: "0 < remaining sys"
  shows "\<exists>i. enabled env sys i"
proof (cases "init_lock (shared sys)")
  case True
  have i1: "inv1 env sys" and i2: "inv2 env sys" and i3: "inv3 env sys"
    using inv by (simp_all add: invs_def)
  have "0 < cnt incs (cores sys)" using i1 True by (simp add: inv1_def)
  from cnt_pos_ex[OF this] obtain i where i: "i < length (cores sys)"
    and cs: "in_cs (pc (cores sys ! i))" by (auto simp: incs_def)
  have ne: "pc (cores sys ! i) \<noteq> EarlyInit"
    using inv_early0[OF i2 i3 i] nz by blast
  have "enabled env sys i"
  proof (rule enabledI[OF i])
    fix c' g' assume st: "core_step env (cores sys ! i) (shared sys) = Some (c', g')"
    show "rank (pc (cores sys ! i)) < rank (pc c')"
      using cs ne by (cases rule: core_step_cases[OF st]) simp_all
  qed
  then show ?thesis ..
next
  case False
  have i1: "inv1 env sys" and i2: "inv2 env sys" and i3: "inv3 env sys" and i4: "inv4 env sys"
    using inv by (simp_all add: invs_def)
  from remaining_pos[OF pos] obtain j where j: "j < length (cores sys)"
    and r: "rank (pc (cores sys ! j)) < 20" by blast
  have "master_cpu_id (shared sys) \<noteq> INVALID_CPU_ID env"
    using i3 nz unfolding inv3_def by blast
  then have "0 < cnt elected (cores sys)" using i2 by (simp add: inv2_def)
  from cnt_pos_ex[OF this] obtain k where k: "k < length (cores sys)"
    "5 \<le> rank (pc (cores sys ! k))" by (auto simp: elected_def)
  then have ent: "entered_cpus (shared sys) = online_cpus (hypervisor_header env)"
    using i1 unfolding inv1_def by blast
  have "enabled env sys j"
  proof (rule enabledI[OF j])
    fix c' g' assume st: "core_step env (cores sys ! j) (shared sys) = Some (c', g')"
    show "rank (pc (cores sys ! j)) < rank (pc c')"
      using False nz ent r by (cases rule: core_step_cases[OF st]) simp_all
  qed
  then show ?thesis ..
qed

lemma run_append:
  "run env (xs @ ys) sys = (case run env xs sys of None \<Rightarrow> None | Some s \<Rightarrow> run env ys s)"
  by (induction xs arbitrary: sys) (auto split: option.splits)

lemma step_error_kept:
  assumes "invs env sys" "error (shared sys) \<noteq> 0" "step env i sys = Some sys'"
  shows "error (shared sys') = error (shared sys)"
proof (cases "i < length (cores sys)")
  case False
  then show ?thesis using step_outside[OF False assms(3)] by simp
next
  case True
  from step_inside[OF True assms(3)] obtain c' g' where
    st: "core_step env (cores sys ! i) (shared sys) = Some (c', g')"
    and sh: "shared sys' = g'" by blast
  from step_error_fixed[OF _ _ True st assms(2)] assms(1) sh show ?thesis
    by (simp add: invs_def)
qed

lemma run_error:
  assumes "EINVAL env \<noteq> 0"
  shows "invs env sys \<Longrightarrow> error (shared sys) \<noteq> 0 \<Longrightarrow>
    \<exists>sys'. run env r sys = Some sys' \<and> invs env sys' \<and>
      error (shared sys') = error (shared sys) \<and> remaining sys' \<le> remaining sys"
proof (induction r arbitrary: sys)
  case Nil then show ?case by simp
next
  case (Cons i r)
  from step_total_error[OF Cons.prems] obtain sys1 where s1: "step env i sys = Some sys1" by blast
  note inv1 = invs_step[OF assms Cons.prems(1) s1]
  note e1 = step_error_kept[OF Cons.prems s1]
  from Cons.IH[OF inv1] e1 Cons.prems(2) obtain sys' where
    "run env r sys1 = Some sys'" "invs env sys'" "error (shared sys') = error (shared sys1)"
    "remaining sys' \<le> remaining sys1" by auto
  moreover have "remaining sys1 \<le> remaining sys" using step_progress[OF s1] by auto
  ultimately show ?case using s1 e1 by auto
qed

lemma run_error_fixed:
  assumes "EINVAL env \<noteq> 0"
  shows "invs env sys \<Longrightarrow> error (shared sys) \<noteq> 0 \<Longrightarrow> run env r sys = Some sys' \<Longrightarrow>
    error (shared sys') = error (shared sys) \<and>
    error_stores (shared sys') = error_stores (shared sys)"
proof (induction r arbitrary: sys)
  case Nil then show ?case by simp
next
  case (Cons i r)
  from Cons.prems(3) obtain sys1 where s1: "step env i sys = Some sys1"
    and r1: "run env r sys1 = Some sys'" by (auto split: option.splits)
  have kept: "error (shared sys1) = error (shared sys) \<and>
      error_stores (shared sys1) = error_stores (shared sys)"
  proof (cases "i < length (cores sys)")
    case False
    then show ?thesis using step_outside[OF False s1] by simp
  next
    case True
    from step_inside[OF True s1] obtain c' g' where
      st: "core_step env (cores sys ! i) (shared sys) = Some (c', g')"
      and sh: "shared sys1 = g'" by blast
    from step_error_fixed[OF _ _ True st Cons.prems(2)] Cons.prems(1) sh show ?thesis
      by (simp add: invs_def)
  qed
  from Cons.IH[OF invs_step[OF assms Cons.prems(1) s1] _ r1] kept Cons.prems(2)
  show ?case by simp
qed

lemma run_remaining:
  "run env r sys = Some sys' \<Longrightarrow> remaining sys' \<le> remaining sys"
proof (induction r arbitrary: sys)
  case Nil then show ?case by simp
next
  case (Cons j r)
  from Cons.prems obtain sys1 where s1: "step env j sys = Some sys1"
    and r1: "run env r sys1 = Some sys'" by (auto split: option.splits)
  from step_progress[OF s1] Cons.IH[OF r1] show ?case by auto
qed

lemma round_enabled:
  "enabled env sys i \<Longrightarrow> i \<in> set r \<Longrightarrow> run env r sys = Some sys' \<Longrightarrow>
     remaining sys' < remaining sys"
proof (induction r arbitrary: sys)
  case Nil then show ?case by simp
next
  case (Cons j r)
  from Cons.prems(3) obtain sys1 where s1: "step env j sys = Some sys1"
    and r1: "run env r sys1 = Some sys'" by (auto split: option.splits)
  from step_progress[OF s1] show ?case
  proof
    assume same: "sys1 = sys"
    then have "j \<noteq> i" using Cons.prems(1) s1 by (auto simp: enabled_def)
    then have "i \<in> set r" using Cons.prems(2) by simp
    from Cons.IH[OF Cons.prems(1) this] r1 same show ?thesis by simp
  next
    assume "remaining sys1 < remaining sys"
    with run_remaining[OF r1] show ?thesis by simp
  qed
qed

lemma rounds_finish:
  assumes "EINVAL env \<noteq> 0"
  shows "invs env sys \<Longrightarrow> error (shared sys) \<noteq> 0 \<Longrightarrow>
    \<forall>r \<in> set rounds. {..<length (cores sys)} \<subseteq> set r \<Longrightarrow>
    remaining sys \<le> length rounds \<Longrightarrow>
    \<exists>sys'. run env (concat rounds) sys = Some sys' \<and> invs env sys' \<and>
      error (shared sys') = error (shared sys) \<and> remaining sys' = 0"
proof (induction rounds arbitrary: sys)
  case Nil then show ?case by simp
next
  case (Cons r rounds)
  from run_error[OF assms Cons.prems(1,2), of r] obtain sys1 where
    r1: "run env r sys = Some sys1" and inv1: "invs env sys1"
    and e1: "error (shared sys1) = error (shared sys)"
    and le: "remaining sys1 \<le> remaining sys" by blast
  have len: "length (cores sys1) = length (cores sys)"
    using inv1 Cons.prems(1) by (simp add: invs_def inv1_def)
  have rem: "remaining sys1 \<le> length rounds"
  proof (cases "remaining sys = 0")
    case True then show ?thesis using le by simp
  next
    case False
    then obtain i where en: "enabled env sys i"
      using error_enabled[OF Cons.prems(1,2)] by blast
    then have "i \<in> set r" using Cons.prems(3) by (auto simp: enabled_def)
    from round_enabled[OF en this r1] Cons.prems(4)
    show ?thesis by simp
  qed
  have nz1: "error (shared sys1) \<noteq> 0" using e1 Cons.prems(2) by simp
  have cov: "\<forall>r \<in> set rounds. {..<length (cores sys1)} \<subseteq> set r"
    using Cons.prems(3) len by simp
  from Cons.IH[OF inv1 nz1 cov rem] obtain sys' where
    "run env (concat rounds) sys1 = Some sys'" "invs env sys'"
    "error (shared sys') = error (shared sys1)" "remaining sys' = 0" by blast
  then show ?case using r1 e1 by (simp add: run_append)
qed

lemma remaining_bound: "remaining sys \<le> 20 * length (cores sys)"
  unfolding remaining_def
  using sum_list_mono[of "cores sys" "\<lambda>c. 20 - rank (pc c)" "\<lambda>c. 20"]
  by (simp add: sum_list_triv)

lemma step_ranks:
  assumes "step env i sys = Some sys'" "j < length (cores sys)"
  shows "rank (pc (cores sys ! j)) \<le> rank (pc (cores sys' ! j))"
proof (cases "i < length (cores sys)")
  case False
  then show ?thesis using step_outside[OF False assms(1)] by simp
next
  case True
  from step_inside[OF True assms(1)] obtain c' g' where
    st: "core_step env (cores sys ! i) (shared sys) = Some (c', g')"
    and co: "cores sys' = (cores sys)[i := c']" by blast
  show ?thesis unfolding co using core_step_rank[OF st] True assms(2)
    by (cases "j = i") simp_all
qed

lemma step_length: "step env i sys = Some sys' \<Longrightarrow> length (cores sys') = length (cores sys)"
  by (auto simp: step_def split: if_splits option.splits)

lemma run_ranks:
  "run env r sys = Some sys' \<Longrightarrow>
     length (cores sys') = length (cores sys) \<and>
     (\<forall>j < length (cores sys). rank (pc (cores sys ! j)) \<le> rank (pc (cores sys' ! j)))"
proof (induction r arbitrary: sys)
  case Nil then show ?case by simp
next
  case (Cons i r)
  from Cons.prems obtain sys1 where s1: "step env i sys = Some sys1"
    and r1: "run env r sys1 = Some sys'" by (auto split: option.splits)
  from Cons.IH[OF r1] step_length[OF s1] step_ranks[OF s1] show ?case
    by (metis le_trans)
qed

lemma election_enabled:
  assumes inv: "invs env sys" and pre: "\<forall>j < length (cores sys). rank (pc (cores sys ! j)) < 7"
    and ne: "cores sys \<noteq> []"
  shows "\<exists>i. enabled env sys i"
proof -
  have i1: "inv1 env sys" using inv by (simp add: invs_def)
  have len: "length (cores sys) = unat (online_cpus (hypervisor_header env))"
    and ent: "unat (entered_cpus (shared sys)) = cnt (pastc 3) (cores sys)"
    using i1 unfolding inv1_def by blast+
  show ?thesis
  proof (cases "init_lock (shared sys)")
    case True
    have "0 < cnt incs (cores sys)" using i1 True by (simp add: inv1_def)
    from cnt_pos_ex[OF this] obtain i where i: "i < length (cores sys)"
      and cs: "in_cs (pc (cores sys ! i))" by (auto simp: incs_def)
    have r: "rank (pc (cores sys ! i)) < 7" using pre i by blast
    have "enabled env sys i"
    proof (rule enabledI[OF i])
      fix c' g' assume st: "core_step env (cores sys ! i) (shared sys) = Some (c', g')"
      show "rank (pc (cores sys ! i)) < rank (pc c')"
        using cs r by (cases rule: core_step_cases[OF st]) simp_all
    qed
    then show ?thesis ..
  next
    case False
    show ?thesis
    proof (cases "\<exists>j < length (cores sys). pc (cores sys ! j) \<noteq> WaitEntered")
      case True
      then obtain j where j: "j < length (cores sys)"
        and w: "pc (cores sys ! j) \<noteq> WaitEntered" by blast
      have r: "rank (pc (cores sys ! j)) < 7" using pre j by blast
      have "enabled env sys j"
      proof (rule enabledI[OF j])
        fix c' g' assume st: "core_step env (cores sys ! j) (shared sys) = Some (c', g')"
        show "rank (pc (cores sys ! j)) < rank (pc c')"
          using False w r by (cases rule: core_step_cases[OF st]) simp_all
      qed
      then show ?thesis ..
    next
      case all: False
      have "\<forall>c \<in> set (cores sys). pastc 3 c"
        using all by (auto simp: in_set_conv_nth pastc_def)
      then have "cnt (pastc 3) (cores sys) = length (cores sys)"
        by (simp add: cnt_def)
      then have e: "entered_cpus (shared sys) = online_cpus (hypervisor_header env)"
        using ent len by (simp add: word_unat_eq_iff)
      have z: "0 < length (cores sys)" using ne by simp
      have "enabled env sys 0"
      proof (rule enabledI[OF z])
        fix c' g' assume st: "core_step env (cores sys ! 0) (shared sys) = Some (c', g')"
        show "rank (pc (cores sys ! 0)) < rank (pc c')"
          using e all z by (cases rule: core_step_cases[OF st]) auto
      qed
      then show ?thesis ..
    qed
  qed
qed

lemma election_reached:
  assumes "EINVAL env \<noteq> 0"
  shows "invs env sys \<Longrightarrow> cores sys \<noteq> [] \<Longrightarrow>
    \<forall>r \<in> set rounds. {..<length (cores sys)} \<subseteq> set r \<Longrightarrow>
    remaining sys \<le> length rounds \<Longrightarrow>
    run env (concat rounds) sys = Some sys' \<Longrightarrow>
    \<exists>j < length (cores sys'). 7 \<le> rank (pc (cores sys' ! j))"
proof (induction rounds arbitrary: sys)
  case Nil
  then have "remaining sys = 0" "sys' = sys" by simp_all
  moreover have "cores sys ! 0 \<in> set (cores sys)" "0 < length (cores sys)"
    using Nil.prems(2) by simp_all
  ultimately show ?case using remaining_0[of sys "cores sys ! 0"] by auto
next
  case (Cons r rounds)
  from Cons.prems(5) obtain sys1 where r1: "run env r sys = Some sys1"
    and r2: "run env (concat rounds) sys1 = Some sys'"
    by (auto simp: run_append split: option.splits)
  note inv1 = invs_run[OF assms Cons.prems(1) r1]
  note mono1 = run_ranks[OF r1] and mono2 = run_ranks[OF r2]
  show ?case
  proof (cases "\<exists>j < length (cores sys). 7 \<le> rank (pc (cores sys ! j))")
    case True
    then obtain j where j: "j < length (cores sys)" "7 \<le> rank (pc (cores sys ! j))" by blast
    then have "j < length (cores sys')" "7 \<le> rank (pc (cores sys' ! j))"
      using mono1 mono2 by (simp, metis le_trans)
    then show ?thesis by blast
  next
    case False
    then have "\<forall>j < length (cores sys). rank (pc (cores sys ! j)) < 7" by (simp add: not_le)
    from election_enabled[OF Cons.prems(1) this Cons.prems(2)] obtain i where
      en: "enabled env sys i" by blast
    then have "i \<in> set r" using Cons.prems(3) by (auto simp: enabled_def)
    from round_enabled[OF en this r1] Cons.prems(4)
    have rem: "remaining sys1 \<le> length rounds" by simp
    have ne1: "cores sys1 \<noteq> []" using mono1 Cons.prems(2) by auto
    have cov: "\<forall>r \<in> set rounds. {..<length (cores sys1)} \<subseteq> set r"
      using Cons.prems(3) mono1 by simp
    from Cons.IH[OF inv1 ne1 cov rem r2] show ?thesis .
  qed
qed

lemma error_state_safe:
  assumes "invs env sys" "error (shared sys) \<noteq> 0"
  shows "(\<forall>c \<in> set (cores sys). pc c \<noteq> Activate \<and> pc c \<noteq> Activated)
       \<and> ArchCpuActivateVmm \<notin> set (trace (shared sys))
       \<and> \<not> activate (shared sys)
       \<and> (\<forall>c \<in> set (cores sys). \<forall>e. pc c = Returned e \<longrightarrow>
             e = error (shared sys) \<and> restored (shared sys) c)"
proof -
  have i3: "inv3 env sys" and i4: "inv4 env sys" using assms(1) by (simp_all add: invs_def)
  have x: "\<And>j. j < length (cores sys) \<Longrightarrow> exit_ok (shared sys) (cores sys ! j)"
    and f2: "activate (shared sys) =
       (ConfigCommit \<in> set (trace (shared sys)) \<and> cnt (at SetActivate) (cores sys) = 0)"
    and f6: "ArchCpuActivateVmm \<in> set (trace (shared sys)) \<longrightarrow> activate (shared sys)"
    using i4 unfolding inv4_def by blast+
  have f1: "ConfigCommit \<in> set (trace (shared sys)) \<longrightarrow> error (shared sys) = 0"
    using i3 unfolding inv3_def by blast
  have 3: "\<not> activate (shared sys)" using f1 f2 assms(2) by blast
  have 2: "ArchCpuActivateVmm \<notin> set (trace (shared sys))" using 3 f6 by blast
  have 1: "\<forall>c \<in> set (cores sys). pc c \<noteq> Activate \<and> pc c \<noteq> Activated"
    unfolding set_nth_iff using x assms(2) unfolding exit_ok_def by blast
  have 4: "\<forall>c \<in> set (cores sys). \<forall>e. pc c = Returned e \<longrightarrow>
             e = error (shared sys) \<and> restored (shared sys) c"
    unfolding set_nth_iff using x unfolding exit_ok_def by blast
  show ?thesis using 1 2 3 4 by blast
qed

lemma wf_example: "wf_boot example_env ex_args"
  by code_simp

lemma wf_fail: "wf_boot fail_env ex_args"
  by code_simp

lemma wf_early_fail: "wf_boot early_fail_env ex_args"
  by code_simp

lemma run_ex_done: "run example_env (rr 20) (boot example_env ex_args) = Some ex_done"
  by code_simp

lemma run_ex_gate: "run example_env (rr 16) (boot example_env ex_args) = Some ex_gate"
  by code_simp

lemma run_fail_mid: "run fail_env (rr 13) (boot fail_env ex_args) = Some fail_mid"
  by code_simp

lemma run_early_mid: "run early_fail_env (rr 11) (boot early_fail_env ex_args) = Some early_mid"
  by code_simp

lemma outcome_ex_done: "outcome ex_done = ([Activated, Activated], [True, False], 2, 2, 0, True)"
  by code_simp

lemma outcome_ex_gate:
  "outcome ex_gate = ([SetActivate, WaitActivate], [True, False], 2, 2, 0, False)"
  by code_simp

lemma outcome_fail_mid:
  "outcome fail_mid = ([WaitInitialized, Unlock2], [True, False], 2, 1, - 12, False)"
  by code_simp

lemma outcome_early_mid:
  "outcome early_mid = ([WaitInitialized, Elect], [True, False], 2, 0, - 12, False)"
  by code_simp

lemma wf_failing_unit: "wf_boot failing_unit_env ex_args"
  by code_simp

lemma run_late_mid:
  "run failing_unit_env (rr 16) (boot failing_unit_env ex_args) = Some late_mid"
  by code_simp

lemma outcome_late_mid:
  "outcome late_mid = ([SetActivate, WaitActivate], [True, False], 2, 2, - 19, False)"
  by code_simp

lemma fair_rr: "\<forall>r \<in> set (replicate 40 [0, 1]). {..<length ex_args} \<subseteq> set r"
  "20 * length ex_args \<le> length (replicate 40 [0::nat, 1])"
  by (auto simp: ex_args_def)

lemma run_ex_done_rev:
  "run example_env (rr_rev 20) (boot example_env ex_args) = Some ex_done_rev"
  by code_simp

lemma outcome_ex_done_rev:
  "outcome ex_done_rev = ([Activated, Activated], [False, True], 2, 2, 0, True)"
  by code_simp

lemma run_ex_after_40:
  "run example_env (rr 40) (boot example_env ex_args) = Some ex_after_40"
  by code_simp

lemma run_nil: "run example_env [] (boot example_env ex_args) = Some (boot example_env ex_args)"
  by simp

lemma outcomeD:
  assumes "outcome sys = (ps, ms, en, ini, er, ac)"
  shows "map pc (cores sys) = ps" "map master (cores sys) = ms" "entered_cpus (shared sys) = en"
    "initialized_cpus (shared sys) = ini" "error (shared sys) = er" "activate (shared sys) = ac"
  using assms by (simp_all add: outcome_def)

lemma map2D:
  assumes "map f xs = [a, b]"
  shows "length xs = 2" "f (xs ! 0) = a" "f (xs ! 1) = b" "set xs = {xs ! 0, xs ! 1}"
proof -
  from assms obtain x y where xs: "xs = [x, y]" by auto
  with assms show "length xs = 2" "f (xs ! 0) = a" "f (xs ! 1) = b" "set xs = {xs ! 0, xs ! 1}"
    by auto
qed

section \<open>Properties of the interleaved runs\<close>

text \<open>
  The theorems of this section are about every state \<open>sys\<close> that the cores can reach
  from \<open>boot env args\<close> along some schedule, \<open>run env sched (boot env args) = Some sys\<close>,
  for the boots described by \<open>wf_boot\<close>: every interleaving of the cores is a schedule.
\<close>

text \<open>
  C1. At every moment of every interleaving at most one core has \<open>master\<close> set, and as
  soon as some core is past the test of \<^verbatim>\<open>master_cpu_id\<close> (line 246) exactly one has:
  the core that found \<^verbatim>\<open>INVALID_CPU_ID\<close>. The test and the assignment in \<open>init_early\<close>
  are made with the lock held, and at most one core is between \<^verbatim>\<open>spin_lock\<close> and
  \<^verbatim>\<open>spin_unlock\<close>: exactly one when the lock is held, none when it is free. And a
  master is elected in every fair interleaving: when the run goes on for \<open>20 N\<close> rounds
  in each of which each of the \<open>N \<ge> 1\<close> cores gets a turn, and the master returns from
  \<open>init_early\<close> (the run has a state), exactly one core is master.
\<close>

theorem exactly_one_master:
  assumes "wf_boot env args" "run env sched (boot env args) = Some sys"
  shows "length (filter master (cores sys)) \<le> 1
       \<and> ((\<exists>c \<in> set (cores sys). 7 \<le> rank (pc c)) \<longrightarrow> length (filter master (cores sys)) = 1)
       \<and> length (filter (\<lambda>c. in_cs (pc c)) (cores sys)) = (if init_lock (shared sys) then 1 else 0)
       \<and> (\<forall>rounds sys'. args \<noteq> [] \<longrightarrow>
             (\<forall>r \<in> set rounds. {..<length args} \<subseteq> set r) \<longrightarrow>
             20 * length args \<le> length rounds \<longrightarrow>
             run env (concat rounds) sys = Some sys' \<longrightarrow>
             length (filter master (cores sys')) = 1)"
proof -
  note inv = invs_reachable[OF assms]
  have ev: "EINVAL env \<noteq> 0" and len: "length (cores sys) = length args"
    and lock: "cnt incs (cores sys) = (if init_lock (shared sys) then 1 else 0)"
    using assms(1) inv by (simp_all add: wf_boot_def invs_def inv1_def)
  have one: "cnt master (cores t) = 1"
    if t: "invs env t" and j: "j < length (cores t)" "7 \<le> rank (pc (cores t ! j))" for t j
  proof -
    have i2: "inv2 env t" using t by (simp add: invs_def)
    have m1: "cnt master (cores t) \<le> 1" using i2 by (simp add: inv2_def)
    show ?thesis
    proof (cases "rank (pc (cores t ! j)) = 7")
      case True
      then have "master (cores t ! j)" using i2 j(1) rank_7 unfolding inv2_def by blast
      then show ?thesis using cnt_pos[OF j(1), of master] m1 by simp
    next
      case False
      then have "8 \<le> rank (pc (cores t ! j))" using j(2) by simp
      then have "master_cpu_id (shared t) \<noteq> INVALID_CPU_ID env"
        using i2 j(1) unfolding inv2_def by blast
      then show ?thesis using i2 m1 unfolding inv2_def by auto
    qed
  qed
  have 3: "length (filter (\<lambda>c. in_cs (pc c)) (cores sys)) = (if init_lock (shared sys) then 1 else 0)"
    using lock by (simp add: cnt_def incs_def[abs_def])
  have 4: "length (filter master (cores sys')) = 1"
    if ne: "args \<noteq> []" and cov: "\<forall>r \<in> set rounds. {..<length args} \<subseteq> set r"
      and many: "20 * length args \<le> length rounds"
      and r: "run env (concat rounds) sys = Some sys'" for rounds sys'
  proof -
    have rem: "remaining sys \<le> length rounds"
      using remaining_bound[of sys] many len by simp
    have cov': "\<forall>r \<in> set rounds. {..<length (cores sys)} \<subseteq> set r" using cov len by simp
    have ne': "cores sys \<noteq> []" using ne len by auto
    from election_reached[OF ev inv ne' cov' rem r] obtain j where
      j: "j < length (cores sys')" "7 \<le> rank (pc (cores sys' ! j))" by blast
    from one[OF invs_run[OF ev inv r] j] show ?thesis by (simp add: cnt_def)
  qed
  have i2: "inv2 env sys" using inv by (simp add: invs_def)
  have m1: "cnt master (cores sys) \<le> 1" using i2 by (simp add: inv2_def)
  have 2: "cnt master (cores sys) = 1" if "c \<in> set (cores sys)" "7 \<le> rank (pc c)" for c
  proof -
    from that(1) obtain j where j: "j < length (cores sys)" "cores sys ! j = c"
      by (auto simp: in_set_conv_nth)
    from one[OF inv j(1)] that(2) j(2) show ?thesis by simp
  qed
  show ?thesis using m1 2 3 4 unfolding cnt_def by blast
qed

text \<open>
  Two cores taking turns. When CPU 0 goes first it is the master and CPU 1 is not;
  when CPU 1 goes first it is the other way round. And forty rounds from the start
  end with exactly one master.
\<close>

theorem exactly_one_master_witness:
  "wf_boot example_env ex_args
   \<and> run example_env (rr 20) (boot example_env ex_args) = Some ex_done
   \<and> map pc (cores ex_done) = [Activated, Activated]
   \<and> map master (cores ex_done) = [True, False]
   \<and> length (filter master (cores ex_done)) = 1
   \<and> run example_env (rr_rev 20) (boot example_env ex_args) = Some ex_done_rev
   \<and> map master (cores ex_done_rev) = [False, True]
   \<and> length (filter master (cores ex_done_rev)) = 1
   \<and> run example_env (rr 40) (boot example_env ex_args) = Some ex_after_40
   \<and> length (filter master (cores ex_after_40)) = 1"
proof -
  note o = outcomeD[OF outcome_ex_done]
  have "cores ex_done ! 0 \<in> set (cores ex_done)" "7 \<le> rank (pc (cores ex_done ! 0))"
    using map2D[OF o(1)] by simp_all
  then have "\<exists>c \<in> set (cores ex_done). 7 \<le> rank (pc c)" by blast
  with exactly_one_master[OF wf_example run_ex_done]
  have 1: "length (filter master (cores ex_done)) = 1" by blast
  note r = outcomeD[OF outcome_ex_done_rev]
  have "cores ex_done_rev ! 0 \<in> set (cores ex_done_rev)"
    "7 \<le> rank (pc (cores ex_done_rev ! 0))"
    using map2D[OF r(1)] by simp_all
  then have "\<exists>c \<in> set (cores ex_done_rev). 7 \<le> rank (pc c)" by blast
  with exactly_one_master[OF wf_example run_ex_done_rev]
  have 2: "length (filter master (cores ex_done_rev)) = 1" by blast
  have ne: "ex_args \<noteq> []" by (simp add: ex_args_def)
  have run40: "run example_env (concat (replicate 40 [0, 1])) (boot example_env ex_args) =
      Some ex_after_40"
    using run_ex_after_40 by (simp add: rr_def)
  from exactly_one_master[OF wf_example run_nil] ne fair_rr run40
  have 3: "length (filter master (cores ex_after_40)) = 1" by blast
  show ?thesis
    using wf_example run_ex_done o(1,2) 1 run_ex_done_rev r(2) 2 run_ex_after_40 3 by blast
qed

text \<open>
  C2. \<open>init_late\<close> calls \<open>config_commit\<close> when all its fallible steps are behind it
  (line 212), so \<open>ConfigCommit\<close> is in the trace exactly when \<open>init_late\<close> has run to its
  end without a failure. In every reachable state: \<open>activate\<close> is set exactly when \<open>init_late\<close> has
  committed and the master is past line 269; when the master is at line 263, having
  returned from \<open>init_late\<close>, \<open>error\<close> is 0 exactly when \<open>init_late\<close> has committed, and
  its next step sets \<open>activate\<close> exactly when \<open>error\<close> is 0; no other step changes
  \<open>activate\<close>; \<open>activate\<close> is only set while \<open>error\<close> is 0; a core that is at or inside
  \<^verbatim>\<open>arch_cpu_activate_vmm\<close> (the master included) finds \<open>activate\<close> set; and
  \<^verbatim>\<open>arch_cpu_activate_vmm\<close> has only been called when \<open>activate\<close> is set.
\<close>

theorem activation_gate:
  assumes "wf_boot env args" "run env sched (boot env args) = Some sys"
  shows "activate (shared sys) =
           (ConfigCommit \<in> set (trace (shared sys)) \<and> (\<forall>c \<in> set (cores sys). pc c \<noteq> SetActivate))
       \<and> (\<forall>c \<in> set (cores sys). pc c = SetActivate \<longrightarrow>
             (error (shared sys) = 0) = (ConfigCommit \<in> set (trace (shared sys))))
       \<and> (\<forall>i sys'. i < length (cores sys) \<longrightarrow> pc (cores sys ! i) = SetActivate \<longrightarrow>
             step env i sys = Some sys' \<longrightarrow>
             activate (shared sys') = (error (shared sys) = 0))
       \<and> (\<forall>i sys'. step env i sys = Some sys' \<longrightarrow>
             activate (shared sys') \<noteq> activate (shared sys) \<longrightarrow>
             i < length (cores sys) \<and> pc (cores sys ! i) = SetActivate
             \<and> master (cores sys ! i) \<and> error (shared sys) = 0 \<and> activate (shared sys'))
       \<and> (ConfigCommit \<in> set (trace (shared sys)) \<longrightarrow> error (shared sys) = 0)
       \<and> (activate (shared sys) \<longrightarrow> error (shared sys) = 0)
       \<and> (\<forall>c \<in> set (cores sys). pc c = Activate \<or> pc c = Activated \<longrightarrow> activate (shared sys))
       \<and> (ArchCpuActivateVmm \<in> set (trace (shared sys)) \<longrightarrow> activate (shared sys))"
proof -
  from invs_reachable[OF assms] have i3: "inv3 env sys" and i4: "inv4 env sys"
    by (simp_all add: invs_def)
  have x: "\<And>j. j < length (cores sys) \<Longrightarrow> exit_ok (shared sys) (cores sys ! j)"
    and f2: "activate (shared sys) =
       (ConfigCommit \<in> set (trace (shared sys)) \<and> cnt (at SetActivate) (cores sys) = 0)"
    and f6: "ArchCpuActivateVmm \<in> set (trace (shared sys)) \<longrightarrow> activate (shared sys)"
    using i4 unfolding inv4_def by blast+
  have f1: "ConfigCommit \<in> set (trace (shared sys)) \<longrightarrow> error (shared sys) = 0"
    using i3 unfolding inv3_def by blast
  have "(cnt (at SetActivate) (cores sys) = 0) = (\<forall>c \<in> set (cores sys). pc c \<noteq> SetActivate)"
    by (auto simp: cnt_def at_def filter_empty_conv)
  then have 1: "activate (shared sys) =
           (ConfigCommit \<in> set (trace (shared sys)) \<and> (\<forall>c \<in> set (cores sys). pc c \<noteq> SetActivate))"
    using f2 by simp
  have 2: "\<forall>c \<in> set (cores sys). pc c = SetActivate \<longrightarrow>
             (error (shared sys) = 0) = (ConfigCommit \<in> set (trace (shared sys)))"
    unfolding set_nth_iff using x f1 unfolding exit_ok_def by blast
  have 3: "activate (shared sys') = (error (shared sys) = 0)"
    if "i < length (cores sys)" "pc (cores sys ! i) = SetActivate" "step env i sys = Some sys'"
    for i sys'
  proof -
    from step_inside[OF that(1,3)] obtain c' g' where
      st: "core_step env (cores sys ! i) (shared sys) = Some (c', g')"
      and sh: "shared sys' = g'" by blast
    have "\<not> activate (shared sys)" using 1 that(1,2) by (metis nth_mem)
    then show ?thesis using that(2) unfolding sh
      by (cases rule: core_step_cases[OF st]) simp_all
  qed
  have 5: "\<forall>c \<in> set (cores sys). pc c = Activate \<or> pc c = Activated \<longrightarrow> activate (shared sys)"
    unfolding set_nth_iff
  proof (intro allI impI)
    fix j assume j: "j < length (cores sys)"
      and p: "pc (cores sys ! j) = Activate \<or> pc (cores sys ! j) = Activated"
    then have "15 \<le> rank (pc (cores sys ! j))" by auto
    then show "activate (shared sys)" using x[OF j] p unfolding exit_ok_def by blast
  qed
  have 4: "activate (shared sys) \<longrightarrow> error (shared sys) = 0" using 1 f1 by blast
  have 8: "i < length (cores sys) \<and> pc (cores sys ! i) = SetActivate
             \<and> master (cores sys ! i) \<and> error (shared sys) = 0 \<and> activate (shared sys')"
    if s: "step env i sys = Some sys'" and ne: "activate (shared sys') \<noteq> activate (shared sys)"
    for i sys'
  proof (cases "i < length (cores sys)")
    case False
    then show ?thesis using step_outside[OF False s] ne by simp
  next
    case True
    from step_inside[OF True s] obtain c' g' where
      st: "core_step env (cores sys ! i) (shared sys) = Some (c', g')"
      and sh: "shared sys' = g'" by blast
    have m: "pc (cores sys ! i) = SetActivate \<longrightarrow> master (cores sys ! i)"
      using i3 True unfolding inv3_def by blast
    have "pc (cores sys ! i) = SetActivate \<and> error (shared sys) = 0 \<and> activate g'"
      using ne unfolding sh
      by (cases rule: core_step_cases[OF st])
        (auto dest!: init_early_fields split: if_splits)
    then show ?thesis using True m sh by simp
  qed
  show ?thesis using 1 2 3 8 f1 4 5 f6 by blast
qed

text \<open>
  The master has returned from \<open>init_late\<close> with \<open>error = 0\<close>: the configuration is
  committed, \<open>activate\<close> is still clear, and the next step of the master sets it.
\<close>

theorem activation_gate_witness:
  "wf_boot example_env ex_args
   \<and> run example_env (rr 16) (boot example_env ex_args) = Some ex_gate
   \<and> map pc (cores ex_gate) = [SetActivate, WaitActivate]
   \<and> error (shared ex_gate) = 0
   \<and> \<not> activate (shared ex_gate)
   \<and> ConfigCommit \<in> set (trace (shared ex_gate))
   \<and> (\<exists>sys'. step example_env 0 ex_gate = Some sys' \<and> activate (shared sys'))"
proof -
  note o = outcomeD[OF outcome_ex_gate]
  note m = map2D[OF o(1)]
  note g = activation_gate[OF wf_example run_ex_gate]
  have c: "cores ex_gate ! 0 \<in> set (cores ex_gate)" using m by simp
  from g c m(2) o(5) have cc: "ConfigCommit \<in> set (trace (shared ex_gate))" by blast
  have "step example_env 0 ex_gate \<noteq> None" by code_simp
  then obtain sys' where s: "step example_env 0 ex_gate = Some sys'" by blast
  have "0 < length (cores ex_gate)" using m(1) by simp
  with g m(2) s o(5) have "activate (shared sys')" by blast
  with wf_example run_ex_gate o(1,5,6) cc s show ?thesis by simp
qed

text \<open>
  C3. In every reachable state in which \<open>error\<close> is not 0, whichever stage set it: no
  core is at or inside \<^verbatim>\<open>arch_cpu_activate_vmm\<close>, that function has not been called, and
  \<open>activate\<close> is clear; a core that has returned from \<^verbatim>\<open>entry\<close> has returned the value
  of \<open>error\<close>, after calling \<^verbatim>\<open>arch_cpu_restore\<close> with its CPU id and that value, and
  the master has called \<^verbatim>\<open>shutdown\<close> before its restore; only the master is at the call
  of \<^verbatim>\<open>shutdown\<close>, and when it is at its restore it has called \<^verbatim>\<open>shutdown\<close>. And every
  core does return: when the run goes on for \<open>20 N\<close> rounds in each of which each of
  the \<open>N\<close> cores gets a turn, it ends in a state in which every core has returned the
  value of \<open>error\<close> after its restore, and \<^verbatim>\<open>arch_cpu_activate_vmm\<close> has still not been
  called.
\<close>

theorem error_rollback:
  assumes "wf_boot env args" "run env sched (boot env args) = Some sys"
    "error (shared sys) \<noteq> 0"
  shows "(\<forall>c \<in> set (cores sys). pc c \<noteq> Activate \<and> pc c \<noteq> Activated)
       \<and> ArchCpuActivateVmm \<notin> set (trace (shared sys))
       \<and> \<not> activate (shared sys)
       \<and> (\<forall>c \<in> set (cores sys). \<forall>e. pc c = Returned e \<longrightarrow>
             e = error (shared sys) \<and> restored (shared sys) c)
       \<and> (\<forall>c \<in> set (cores sys). pc c = DoShutdown \<longrightarrow> master c)
       \<and> (\<forall>c \<in> set (cores sys). pc c = Restore \<and> master c \<longrightarrow>
             Shutdown \<in> set (trace (shared sys)))
       \<and> (\<forall>rounds. (\<forall>r \<in> set rounds. {..<length args} \<subseteq> set r) \<longrightarrow>
             20 * length args \<le> length rounds \<longrightarrow>
             (\<exists>sys'. run env (concat rounds) sys = Some sys'
                \<and> error (shared sys') = error (shared sys)
                \<and> ArchCpuActivateVmm \<notin> set (trace (shared sys'))
                \<and> (\<forall>c \<in> set (cores sys').
                      pc c = Returned (error (shared sys)) \<and> restored (shared sys') c)))"
proof -
  note inv = invs_reachable[OF assms(1,2)]
  have ev: "EINVAL env \<noteq> 0" and len: "length (cores sys) = length args"
    using assms(1) inv by (simp_all add: wf_boot_def invs_def inv1_def)
  have live: "\<exists>sys'. run env (concat rounds) sys = Some sys'
                \<and> error (shared sys') = error (shared sys)
                \<and> ArchCpuActivateVmm \<notin> set (trace (shared sys'))
                \<and> (\<forall>c \<in> set (cores sys').
                      pc c = Returned (error (shared sys)) \<and> restored (shared sys') c)"
    if cov: "\<forall>r \<in> set rounds. {..<length args} \<subseteq> set r"
      and many: "20 * length args \<le> length rounds" for rounds
  proof -
    have rem: "remaining sys \<le> length rounds"
      using remaining_bound[of sys] many len by simp
    have cov': "\<forall>r \<in> set rounds. {..<length (cores sys)} \<subseteq> set r" using cov len by simp
    from rounds_finish[OF ev inv assms(3) cov' rem] obtain sys' where
      r: "run env (concat rounds) sys = Some sys'" and inv': "invs env sys'"
      and e: "error (shared sys') = error (shared sys)" and z: "remaining sys' = 0" by blast
    have nz: "error (shared sys') \<noteq> 0" using e assms(3) by simp
    note safe = error_state_safe[OF inv' nz]
    have "pc c = Returned (error (shared sys)) \<and> restored (shared sys') c"
      if c: "c \<in> set (cores sys')" for c
    proof -
      from rank_20[OF remaining_0[OF z c]] safe c obtain e' where "pc c = Returned e'" by blast
      with safe c e show ?thesis by auto
    qed
    with r e safe show ?thesis by blast
  qed
  have x: "\<And>j. j < length (cores sys) \<Longrightarrow> exit_ok (shared sys) (cores sys ! j)"
    using inv unfolding invs_def inv4_def by blast
  have sd: "\<forall>c \<in> set (cores sys). pc c = DoShutdown \<longrightarrow> master c"
    unfolding set_nth_iff using x unfolding exit_ok_def by blast
  have rs: "\<forall>c \<in> set (cores sys). pc c = Restore \<and> master c \<longrightarrow>
             Shutdown \<in> set (trace (shared sys))"
    unfolding set_nth_iff using x unfolding exit_ok_def by blast
  from error_state_safe[OF inv assms(3)] live sd rs show ?thesis by blast
qed

text \<open>
  Three failures: \<open>cpu_init\<close> on CPU 1 with \<open>- 12\<close>, \<open>init_early\<close> with \<open>- 12\<close> and
  \<open>init_late\<close> with \<open>- 19\<close>. In each case, forty more rounds and both cores have
  returned the error, after their restores, and no core has switched mode.
\<close>

theorem error_rollback_witness:
  "wf_boot fail_env ex_args
   \<and> run fail_env (rr 13) (boot fail_env ex_args) = Some fail_mid
   \<and> error (shared fail_mid) = - 12
   \<and> \<not> activate (shared fail_mid)
   \<and> ArchCpuActivateVmm \<notin> set (trace (shared fail_mid))
   \<and> (\<exists>sys'. run fail_env (rr 40) fail_mid = Some sys'
         \<and> error (shared sys') = - 12
         \<and> ArchCpuActivateVmm \<notin> set (trace (shared sys'))
         \<and> list_all (\<lambda>c. pc c = Returned (- 12) \<and> restored (shared sys') c) (cores sys'))
   \<and> wf_boot early_fail_env ex_args
   \<and> run early_fail_env (rr 11) (boot early_fail_env ex_args) = Some early_mid
   \<and> error (shared early_mid) = - 12
   \<and> (\<exists>sys'. run early_fail_env (rr 40) early_mid = Some sys'
         \<and> ArchCpuActivateVmm \<notin> set (trace (shared sys'))
         \<and> list_all (\<lambda>c. pc c = Returned (- 12) \<and> restored (shared sys') c) (cores sys'))
   \<and> wf_boot failing_unit_env ex_args
   \<and> run failing_unit_env (rr 16) (boot failing_unit_env ex_args) = Some late_mid
   \<and> error (shared late_mid) = - 19
   \<and> (\<exists>sys'. run failing_unit_env (rr 40) late_mid = Some sys'
         \<and> ArchCpuActivateVmm \<notin> set (trace (shared sys'))
         \<and> list_all (\<lambda>c. pc c = Returned (- 19) \<and> restored (shared sys') c) (cores sys'))"
proof -
  note o = outcomeD[OF outcome_fail_mid]
  have nz: "error (shared fail_mid) \<noteq> 0" using o(5) by simp
  note g = error_rollback[OF wf_fail run_fail_mid nz]
  from g fair_rr obtain sys' where
    "run fail_env (concat (replicate 40 [0, 1])) fail_mid = Some sys'"
    "error (shared sys') = error (shared fail_mid)"
    "ArchCpuActivateVmm \<notin> set (trace (shared sys'))"
    "\<forall>c \<in> set (cores sys').
        pc c = Returned (error (shared fail_mid)) \<and> restored (shared sys') c"
    by blast
  then have 1: "\<exists>sys'. run fail_env (rr 40) fail_mid = Some sys'
         \<and> error (shared sys') = - 12
         \<and> ArchCpuActivateVmm \<notin> set (trace (shared sys'))
         \<and> list_all (\<lambda>c. pc c = Returned (- 12) \<and> restored (shared sys') c) (cores sys')"
    unfolding rr_def o(5) list_all_iff by blast
  from g have 2: "\<not> activate (shared fail_mid)"
    "ArchCpuActivateVmm \<notin> set (trace (shared fail_mid))" by blast+
  note oe = outcomeD[OF outcome_early_mid]
  have nze: "error (shared early_mid) \<noteq> 0" using oe(5) by simp
  from error_rollback[OF wf_early_fail run_early_mid nze] fair_rr obtain se where
    "run early_fail_env (concat (replicate 40 [0, 1])) early_mid = Some se"
    "ArchCpuActivateVmm \<notin> set (trace (shared se))"
    "\<forall>c \<in> set (cores se).
        pc c = Returned (error (shared early_mid)) \<and> restored (shared se) c"
    by blast
  then have 3: "\<exists>sys'. run early_fail_env (rr 40) early_mid = Some sys'
         \<and> ArchCpuActivateVmm \<notin> set (trace (shared sys'))
         \<and> list_all (\<lambda>c. pc c = Returned (- 12) \<and> restored (shared sys') c) (cores sys')"
    unfolding rr_def oe(5) list_all_iff by blast
  note ol = outcomeD[OF outcome_late_mid]
  have nzl: "error (shared late_mid) \<noteq> 0" using ol(5) by simp
  from error_rollback[OF wf_failing_unit run_late_mid nzl] fair_rr obtain sl where
    "run failing_unit_env (concat (replicate 40 [0, 1])) late_mid = Some sl"
    "ArchCpuActivateVmm \<notin> set (trace (shared sl))"
    "\<forall>c \<in> set (cores sl).
        pc c = Returned (error (shared late_mid)) \<and> restored (shared sl) c"
    by blast
  then have 4: "\<exists>sys'. run failing_unit_env (rr 40) late_mid = Some sys'
         \<and> ArchCpuActivateVmm \<notin> set (trace (shared sys'))
         \<and> list_all (\<lambda>c. pc c = Returned (- 19) \<and> restored (shared sys') c) (cores sys')"
    unfolding rr_def ol(5) list_all_iff by blast
  show ?thesis
    using wf_fail run_fail_mid o(5) 1 2 wf_early_fail run_early_mid oe(5) 3
      wf_failing_unit run_late_mid ol(5) 4
    by blast
qed

text \<open>
  C4. The model logs every store to \<open>error\<close>. In every reachable state the stores so
  far are zeros, followed by the value of \<open>error\<close> when that is not 0: a non-zero value
  was stored at most once, and nothing was stored after it. And once \<open>error\<close> is not 0,
  no step of any core, and so no continuation of the run, stores to it again: \<open>error\<close>
  and the log of its stores stay as they are.
\<close>

theorem error_written_once:
  assumes "wf_boot env args" "run env sched (boot env args) = Some sys"
  shows "(\<exists>k. error_stores (shared sys) =
            replicate k 0 @ (if error (shared sys) = 0 then [] else [error (shared sys)]))
       \<and> (\<forall>i sys'. step env i sys = Some sys' \<longrightarrow> error (shared sys) \<noteq> 0 \<longrightarrow>
             error (shared sys') = error (shared sys)
             \<and> error_stores (shared sys') = error_stores (shared sys))
       \<and> (\<forall>sched' sys'. run env sched' sys = Some sys' \<longrightarrow> error (shared sys) \<noteq> 0 \<longrightarrow>
             error (shared sys') = error (shared sys)
             \<and> error_stores (shared sys') = error_stores (shared sys))"
proof -
  note inv = invs_reachable[OF assms]
  have ev: "EINVAL env \<noteq> 0" using assms(1) by (simp add: wf_boot_def)
  from invs_reachable[OF assms] have i: "inv2 env sys" "inv3 env sys" by (simp_all add: invs_def)
  have 1: "\<exists>k. error_stores (shared sys) =
            replicate k 0 @ (if error (shared sys) = 0 then [] else [error (shared sys)])"
    using i(2) by (simp add: inv3_def write_once_def)
  have 2: "error (shared sys') = error (shared sys)
             \<and> error_stores (shared sys') = error_stores (shared sys)"
    if "step env i sys = Some sys'" "error (shared sys) \<noteq> 0" for i sys'
  proof (cases "i < length (cores sys)")
    case False
    then show ?thesis using step_outside[OF False that(1)] by simp
  next
    case True
    from step_inside[OF True that(1)] obtain c' g' where
      st: "core_step env (cores sys ! i) (shared sys) = Some (c', g')"
      and sh: "shared sys' = g'" by blast
    from step_error_fixed[OF i True st that(2)] sh show ?thesis by simp
  qed
  have 3: "error (shared sys') = error (shared sys)
             \<and> error_stores (shared sys') = error_stores (shared sys)"
    if "run env sched' sys = Some sys'" "error (shared sys) \<noteq> 0" for sched' sys'
    using run_error_fixed[OF ev inv that(2,1)] .
  show ?thesis using 1 2 3 by blast
qed

text \<open>
  \<open>cpu_init\<close> has failed on CPU 1 with \<open>- 12\<close>, after six stores of 0; the next step of
  CPU 0 leaves \<open>error\<close> and its stores alone.
\<close>

theorem error_written_once_witness:
  "wf_boot fail_env ex_args
   \<and> run fail_env (rr 13) (boot fail_env ex_args) = Some fail_mid
   \<and> error (shared fail_mid) = - 12
   \<and> error_stores (shared fail_mid) = [0, 0, 0, 0, 0, 0, - 12]
   \<and> (\<exists>sys'. step fail_env 0 fail_mid = Some sys'
         \<and> error (shared sys') = - 12
         \<and> error_stores (shared sys') = [0, 0, 0, 0, 0, 0, - 12])"
proof -
  note o = outcomeD[OF outcome_fail_mid]
  have st: "error_stores (shared fail_mid) = [0, 0, 0, 0, 0, 0, - 12]" by code_simp
  have "step fail_env 0 fail_mid \<noteq> None" by code_simp
  then obtain sys' where s: "step fail_env 0 fail_mid = Some sys'" by blast
  have nz: "error (shared fail_mid) \<noteq> 0" using o(5) by simp
  from error_written_once[OF wf_fail run_fail_mid] s nz
  have "error (shared sys') = error (shared fail_mid)
      \<and> error_stores (shared sys') = error_stores (shared fail_mid)" by blast
  with wf_fail run_fail_mid o(5) st s show ?thesis by simp
qed

text \<open>
  A boot attempt in which \<open>cpu_init\<close> fails on CPU 1: both cores have entered, both
  have returned from \<^verbatim>\<open>entry\<close> (with \<open>- 12\<close>), and \<open>initialized_cpus\<close> is 1, not 2. The
  failing \<open>cpu_init\<close> leaves by \<^verbatim>\<open>goto failed\<close> (lines 172-174) and does not reach line
  169; the second loop of \<^verbatim>\<open>entry\<close> is left because \<open>error\<close> is set, not because the
  count is reached.
\<close>

theorem initialized_cpus_not_once_per_core:
  "map_option outcome (run fail_env (rr 20) (boot fail_env ex_args)) =
     Some ([Returned (- 12), Returned (- 12)], [True, False], 2, 1, - 12, False)"
  by code_simp

text \<open>
  C5, with \<open>initialized_cpus\<close> counting the successful calls of \<open>cpu_init\<close>. In every
  reachable state: \<open>entered_cpus\<close> is the number of cores that are past line 237, so
  every core increments it exactly once; \<open>initialized_cpus\<close> is at most the number of
  cores that are past lines 253-254, and exactly that number as long as \<open>error\<close> is 0;
  neither counter exceeds \<^verbatim>\<open>online_cpus\<close>. In every step a counter stays or goes up by
  one, without wrapping, by a core that holds the lock and is at line 237, or at line
  254 in a call of \<open>cpu_init\<close> that leaves \<open>error\<close> at 0; and no core goes back in
  \<^verbatim>\<open>entry\<close>, so it passes these lines once; the step at line 237 increments
  \<open>entered_cpus\<close>, and the step at line 254 increments \<open>initialized_cpus\<close> whenever it
  leaves \<open>error\<close> at 0. A core that tests the first loop when
  \<open>entered_cpus\<close> has reached \<^verbatim>\<open>online_cpus\<close> leaves it, and so does a core that tests
  the second loop when \<open>initialized_cpus\<close> has reached \<^verbatim>\<open>online_cpus\<close> or \<open>error\<close> is
  set.
\<close>

theorem counters_once_per_core:
  assumes "wf_boot env args" "run env sched (boot env args) = Some sys"
  shows "unat (entered_cpus (shared sys)) = length (filter (\<lambda>c. 3 \<le> rank (pc c)) (cores sys))
       \<and> unat (initialized_cpus (shared sys)) \<le> length (filter (\<lambda>c. 9 \<le> rank (pc c)) (cores sys))
       \<and> (error (shared sys) = 0 \<longrightarrow>
            unat (initialized_cpus (shared sys)) =
              length (filter (\<lambda>c. 9 \<le> rank (pc c)) (cores sys)))
       \<and> entered_cpus (shared sys) \<le> online_cpus (hypervisor_header env)
       \<and> initialized_cpus (shared sys) \<le> online_cpus (hypervisor_header env)
       \<and> (\<forall>i sys'. step env i sys = Some sys' \<longrightarrow>
            (entered_cpus (shared sys') = entered_cpus (shared sys)
             \<or> entered_cpus (shared sys') = entered_cpus (shared sys) + 1
               \<and> entered_cpus (shared sys) < entered_cpus (shared sys')
               \<and> i < length (cores sys) \<and> pc (cores sys ! i) = IncEntered
               \<and> init_lock (shared sys))
          \<and> (initialized_cpus (shared sys') = initialized_cpus (shared sys)
             \<or> initialized_cpus (shared sys') = initialized_cpus (shared sys) + 1
               \<and> initialized_cpus (shared sys) < initialized_cpus (shared sys')
               \<and> i < length (cores sys) \<and> pc (cores sys ! i) = PerCpuInit
               \<and> init_lock (shared sys) \<and> error (shared sys') = 0)
          \<and> (\<forall>j < length (cores sys). rank (pc (cores sys ! j)) \<le> rank (pc (cores sys' ! j))))
       \<and> (\<forall>i sys'. i < length (cores sys) \<longrightarrow> step env i sys = Some sys' \<longrightarrow>
            (pc (cores sys ! i) = WaitEntered \<longrightarrow>
               entered_cpus (shared sys) = online_cpus (hypervisor_header env) \<longrightarrow>
               pc (cores sys' ! i) = Lock2)
          \<and> (pc (cores sys ! i) = WaitInitialized \<longrightarrow>
               initialized_cpus (shared sys) = online_cpus (hypervisor_header env)
                 \<or> error (shared sys) \<noteq> 0 \<longrightarrow>
               pc (cores sys' ! i) = Branch261)
          \<and> (pc (cores sys ! i) = IncEntered \<longrightarrow>
               entered_cpus (shared sys') = entered_cpus (shared sys) + 1)
          \<and> (pc (cores sys ! i) = PerCpuInit \<longrightarrow> error (shared sys') = 0 \<longrightarrow>
               initialized_cpus (shared sys') = initialized_cpus (shared sys) + 1))"
proof -
  have ev: "EINVAL env \<noteq> 0" using assms(1) by (simp add: wf_boot_def)
  let ?g = "shared sys" and ?cs = "cores sys" and ?on = "online_cpus (hypervisor_header env)"
  from invs_reachable[OF assms] have i1: "inv1 env sys" and i3: "inv3 env sys"
    by (simp_all add: invs_def)
  have len: "length ?cs = unat ?on"
    and ent: "unat (entered_cpus ?g) = cnt (pastc 3) ?cs"
    using i1 unfolding inv1_def by blast+
  have ini: "unat (initialized_cpus ?g) \<le> cnt (pastc 9) ?cs"
    and ini0: "error ?g = 0 \<longrightarrow> unat (initialized_cpus ?g) = cnt (pastc 9) ?cs"
    using i3 unfolding inv3_def by blast+
  have p: "cnt (pastc k) ?cs = length (filter (\<lambda>c. k \<le> rank (pc c)) ?cs)" for k
    by (simp add: cnt_def pastc_def[abs_def])
  have 1: "unat (entered_cpus ?g) = length (filter (\<lambda>c. 3 \<le> rank (pc c)) ?cs)"
    using ent p by simp
  have 2: "unat (initialized_cpus ?g) \<le> length (filter (\<lambda>c. 9 \<le> rank (pc c)) ?cs)"
    using ini p by simp
  have 3: "error ?g = 0 \<longrightarrow>
        unat (initialized_cpus ?g) = length (filter (\<lambda>c. 9 \<le> rank (pc c)) ?cs)"
    using ini0 p by simp
  have 4: "entered_cpus ?g \<le> ?on" "initialized_cpus ?g \<le> ?on"
    using ent ini cnt_le[of "pastc 3" ?cs] cnt_le[of "pastc 9" ?cs] len
    by (simp_all add: word_le_nat_alt)
  have 5: "(entered_cpus (shared sys') = entered_cpus ?g
             \<or> entered_cpus (shared sys') = entered_cpus ?g + 1
               \<and> entered_cpus ?g < entered_cpus (shared sys')
               \<and> i < length ?cs \<and> pc (?cs ! i) = IncEntered \<and> init_lock ?g)
          \<and> (initialized_cpus (shared sys') = initialized_cpus ?g
             \<or> initialized_cpus (shared sys') = initialized_cpus ?g + 1
               \<and> initialized_cpus ?g < initialized_cpus (shared sys')
               \<and> i < length ?cs \<and> pc (?cs ! i) = PerCpuInit
               \<and> init_lock ?g \<and> error (shared sys') = 0)
          \<and> (\<forall>j < length ?cs. rank (pc (?cs ! j)) \<le> rank (pc (cores sys' ! j)))"
    if s: "step env i sys = Some sys'" for i sys'
  proof (cases "i < length ?cs")
    case False
    then show ?thesis using step_outside[OF False s] by simp
  next
    case True
    from step_inside[OF True s] obtain c' g' where
      st: "core_step env (?cs ! i) ?g = Some (c', g')"
      and sh: "shared sys' = g'" and co: "cores sys' = ?cs[i := c']" by blast
    have a: "entered_cpus g' = entered_cpus ?g
             \<or> entered_cpus g' = entered_cpus ?g + 1
               \<and> entered_cpus ?g < entered_cpus g'
               \<and> pc (?cs ! i) = IncEntered \<and> init_lock ?g"
    proof (cases "entered_cpus g' = entered_cpus ?g")
      case False
      with core_step_counters[OF st] have e: "entered_cpus g' = entered_cpus ?g + 1"
        and pc: "pc (?cs ! i) = IncEntered" by auto
      have "cnt (pastc 3) ?cs < length ?cs"
        using cnt_less[OF True, of "pastc 3"] pc by (simp add: pastc_def)
      then have "unat (entered_cpus ?g) < unat ?on" using ent len by simp
      from word_inc_less[OF this] inv_lock_held[OF i1 True] e pc show ?thesis by simp
    qed simp
    have b: "initialized_cpus g' = initialized_cpus ?g
             \<or> initialized_cpus g' = initialized_cpus ?g + 1
               \<and> initialized_cpus ?g < initialized_cpus g'
               \<and> pc (?cs ! i) = PerCpuInit \<and> init_lock ?g \<and> error g' = 0"
    proof (cases "initialized_cpus g' = initialized_cpus ?g")
      case False
      with core_step_init_inc[OF st] have e: "initialized_cpus g' = initialized_cpus ?g + 1"
        and pc: "pc (?cs ! i) = PerCpuInit" and e0: "error g' = 0" by auto
      have "cnt (pastc 9) ?cs < length ?cs"
        using cnt_less[OF True, of "pastc 9"] pc by (simp add: pastc_def)
      then have "unat (initialized_cpus ?g) < unat ?on" using ini len by simp
      from word_inc_less[OF this] inv_lock_held[OF i1 True] e pc e0 show ?thesis by simp
    qed simp
    have c: "\<forall>j < length ?cs. rank (pc (?cs ! j)) \<le> rank (pc (?cs[i := c'] ! j))"
      using core_step_rank[OF st] True by (auto simp: nth_list_update)
    show ?thesis unfolding sh co using a b c True by blast
  qed
  have 6: "(pc (?cs ! i) = WaitEntered \<longrightarrow> entered_cpus ?g = ?on \<longrightarrow>
               pc (cores sys' ! i) = Lock2)
          \<and> (pc (?cs ! i) = WaitInitialized \<longrightarrow>
               initialized_cpus ?g = ?on \<or> error ?g \<noteq> 0 \<longrightarrow>
               pc (cores sys' ! i) = Branch261)
          \<and> (pc (?cs ! i) = IncEntered \<longrightarrow>
               entered_cpus (shared sys') = entered_cpus ?g + 1)
          \<and> (pc (?cs ! i) = PerCpuInit \<longrightarrow> error (shared sys') = 0 \<longrightarrow>
               initialized_cpus (shared sys') = initialized_cpus ?g + 1)"
    if i: "i < length ?cs" and s: "step env i sys = Some sys'" for i sys'
  proof -
    from step_inside[OF i s] obtain c' g' where
      st: "core_step env (?cs ! i) ?g = Some (c', g')"
      and sh: "shared sys' = g'" and co: "cores sys' = ?cs[i := c']" by blast
    have w: "(pc (?cs ! i) = WaitEntered \<longrightarrow> entered_cpus ?g = ?on \<longrightarrow>
               pc (?cs[i := c'] ! i) = Lock2)
          \<and> (pc (?cs ! i) = WaitInitialized \<longrightarrow>
               initialized_cpus ?g = ?on \<or> error ?g \<noteq> 0 \<longrightarrow>
               pc (?cs[i := c'] ! i) = Branch261)"
      using i by (cases rule: core_step_cases[OF st]) auto
    from core_step_incs[OF st ev] w show ?thesis unfolding sh co by blast
  qed
  show ?thesis using 1 2 3 4 5 6 by blast
qed

text \<open>Both cores have activated the hypervisor: both counters are 2.\<close>

theorem counters_once_per_core_witness:
  "wf_boot example_env ex_args
   \<and> run example_env (rr 20) (boot example_env ex_args) = Some ex_done
   \<and> error (shared ex_done) = 0
   \<and> entered_cpus (shared ex_done) = 2
   \<and> initialized_cpus (shared ex_done) = 2
   \<and> unat (entered_cpus (shared ex_done)) =
       length (filter (\<lambda>c. 3 \<le> rank (pc c)) (cores ex_done))
   \<and> unat (initialized_cpus (shared ex_done)) =
       length (filter (\<lambda>c. 9 \<le> rank (pc c)) (cores ex_done))
   \<and> entered_cpus (shared ex_done) \<le> online_cpus (hypervisor_header example_env)
   \<and> initialized_cpus (shared ex_done) \<le> online_cpus (hypervisor_header example_env)"
proof -
  note o = outcomeD[OF outcome_ex_done]
  from counters_once_per_core[OF wf_example run_ex_done] o(5)
  have "unat (entered_cpus (shared ex_done)) =
       length (filter (\<lambda>c. 3 \<le> rank (pc c)) (cores ex_done))
   \<and> unat (initialized_cpus (shared ex_done)) =
       length (filter (\<lambda>c. 9 \<le> rank (pc c)) (cores ex_done))
   \<and> entered_cpus (shared ex_done) \<le> online_cpus (hypervisor_header example_env)
   \<and> initialized_cpus (shared ex_done) \<le> online_cpus (hypervisor_header example_env)"
    by blast
  with wf_example run_ex_done o(3,4,5) show ?thesis by blast
qed

text \<open>
  C10. \<open>init_early\<close> assigns \<^verbatim>\<open>master_cpu_id\<close> before it can fail: its first part,
  \<open>init_early_assign\<close>, sets \<^verbatim>\<open>master_cpu_id\<close> to the CPU id of the caller without making
  a call or storing to \<open>error\<close>; all the calls come after it, in \<open>init_early_calls\<close>,
  which leaves \<^verbatim>\<open>master_cpu_id\<close> alone; so whenever \<open>init_early\<close> returns, with or
  without an error, \<^verbatim>\<open>master_cpu_id\<close> is the CPU id of its caller. In every
  reachable state: \<^verbatim>\<open>master_cpu_id\<close> differs from \<^verbatim>\<open>INVALID_CPU_ID\<close> exactly when a master
  is past its call of \<open>init_early\<close>, and it is then the CPU id of that master; a core
  that makes the test of line 246 after that does not become master and goes on to
  line 253 without calling \<open>init_early\<close>; only a master is at the call of
  \<open>init_early\<close>; at most one core is master; when \<open>error\<close> is set exactly one core is
  master; and only the master is at the call of \<^verbatim>\<open>shutdown\<close>.
\<close>

theorem master_cpu_id_assigned_first:
  assumes "wf_boot env args" "run env sched (boot env args) = Some sys"
  shows "(\<forall>cpu s. master_cpu_id (init_early_assign env cpu s) = cpu
             \<and> trace (init_early_assign env cpu s) = trace s
             \<and> error_stores (init_early_assign env cpu s) = error_stores s
             \<and> init_early env cpu s = init_early_calls env (init_early_assign env cpu s))
       \<and> (\<forall>s s'. init_early_calls env s = Some s' \<longrightarrow> master_cpu_id s' = master_cpu_id s)
       \<and> (\<forall>cpu s s'. init_early env cpu s = Some s' \<longrightarrow> master_cpu_id s' = cpu)
       \<and> (master_cpu_id (shared sys) \<noteq> INVALID_CPU_ID env) =
           (\<exists>c \<in> set (cores sys). master c \<and> 8 \<le> rank (pc c))
       \<and> (\<forall>c \<in> set (cores sys). master c \<and> 8 \<le> rank (pc c) \<longrightarrow>
             master_cpu_id (shared sys) = arg_cpu_id c)
       \<and> (\<forall>i sys'. i < length (cores sys) \<longrightarrow> pc (cores sys ! i) = Elect \<longrightarrow>
             master_cpu_id (shared sys) \<noteq> INVALID_CPU_ID env \<longrightarrow>
             step env i sys = Some sys' \<longrightarrow>
             pc (cores sys' ! i) = PerCpuInit \<and> \<not> master (cores sys' ! i))
       \<and> (\<forall>c \<in> set (cores sys). pc c = EarlyInit \<longrightarrow> master c)
       \<and> length (filter master (cores sys)) \<le> 1
       \<and> (error (shared sys) \<noteq> 0 \<longrightarrow> length (filter master (cores sys)) = 1)
       \<and> (\<forall>c \<in> set (cores sys). pc c = DoShutdown \<longrightarrow> master c)"
proof -
  from invs_reachable[OF assms] have i2: "inv2 env sys" and i3: "inv3 env sys"
    and i4: "inv4 env sys" by (simp_all add: invs_def)
  note i5 = inv5_reachable[OF assms]
  have el: "cnt elected (cores sys) =
       (if master_cpu_id (shared sys) = INVALID_CPU_ID env then 0 else 1)"
    and m1: "cnt master (cores sys) \<le> 1"
    and sum: "cnt (at EarlyInit) (cores sys) + cnt elected (cores sys) = cnt master (cores sys)"
    and m7: "\<And>j. j < length (cores sys) \<Longrightarrow> master (cores sys ! j) \<Longrightarrow>
               7 \<le> rank (pc (cores sys ! j))"
    using i2 unfolding inv2_def by blast+
  have 1: "\<forall>cpu s s'. init_early env cpu s = Some s' \<longrightarrow> master_cpu_id s' = cpu"
    using init_early_fields by blast
  have 9: "\<forall>cpu s. master_cpu_id (init_early_assign env cpu s) = cpu
             \<and> trace (init_early_assign env cpu s) = trace s
             \<and> error_stores (init_early_assign env cpu s) = error_stores s
             \<and> init_early env cpu s = init_early_calls env (init_early_assign env cpu s)"
    by (simp add: init_early_assign_effect init_early_def)
  have 10: "\<forall>s s'. init_early_calls env s = Some s' \<longrightarrow> master_cpu_id s' = master_cpu_id s"
    using init_early_calls_master by blast
  have "(0 < cnt elected (cores sys)) = (\<exists>c \<in> set (cores sys). master c \<and> 8 \<le> rank (pc c))"
    by (auto simp: cnt_def elected_def filter_empty_conv)
  then have 2: "(master_cpu_id (shared sys) \<noteq> INVALID_CPU_ID env) =
           (\<exists>c \<in> set (cores sys). master c \<and> 8 \<le> rank (pc c))"
    using el by (simp split: if_splits)
  have 3: "\<forall>c \<in> set (cores sys). master c \<and> 8 \<le> rank (pc c) \<longrightarrow>
             master_cpu_id (shared sys) = arg_cpu_id c"
    unfolding set_nth_iff using i5 unfolding inv5_def elected_def by blast
  have 4: "pc (cores sys' ! i) = PerCpuInit \<and> \<not> master (cores sys' ! i)"
    if "i < length (cores sys)" "pc (cores sys ! i) = Elect"
      "master_cpu_id (shared sys) \<noteq> INVALID_CPU_ID env" "step env i sys = Some sys'"
    for i sys'
  proof -
    from step_inside[OF that(1,4)] obtain c' g' where
      st: "core_step env (cores sys ! i) (shared sys) = Some (c', g')"
      and co: "cores sys' = (cores sys)[i := c']" by blast
    have "\<not> master (cores sys ! i)" using m7[OF that(1)] that(2) by auto
    then show ?thesis using that(1,2,3) unfolding co
      by (cases rule: core_step_cases[OF st]) simp_all
  qed
  have 5: "\<forall>c \<in> set (cores sys). pc c = EarlyInit \<longrightarrow> master c"
    unfolding set_nth_iff using i2 unfolding inv2_def by blast
  have 6: "length (filter master (cores sys)) \<le> 1" using m1 by (simp add: cnt_def)
  have 7: "error (shared sys) \<noteq> 0 \<longrightarrow> length (filter master (cores sys)) = 1"
  proof
    assume "error (shared sys) \<noteq> 0"
    then have "master_cpu_id (shared sys) \<noteq> INVALID_CPU_ID env"
      using i3 unfolding inv3_def by blast
    then show "length (filter master (cores sys)) = 1"
      using el sum m1 by (simp add: cnt_def)
  qed
  have 8: "\<forall>c \<in> set (cores sys). pc c = DoShutdown \<longrightarrow> master c"
    unfolding set_nth_iff using i4 unfolding inv4_def exit_ok_def by blast
  show ?thesis using 9 10 1 2 3 4 5 6 7 8 by blast
qed

text \<open>
  \<open>paging_init\<close> fails in \<open>init_early\<close> on CPU 0: \<^verbatim>\<open>master_cpu_id\<close> is 0 all the same,
  CPU 0 is the one master, and CPU 1, at line 246, goes on without becoming master.
\<close>

theorem master_cpu_id_assigned_first_witness:
  "wf_boot early_fail_env ex_args
   \<and> run early_fail_env (rr 11) (boot early_fail_env ex_args) = Some early_mid
   \<and> error (shared early_mid) = - 12
   \<and> map master (cores early_mid) = [True, False]
   \<and> map pc (cores early_mid) = [WaitInitialized, Elect]
   \<and> master_cpu_id (shared early_mid) = 0
   \<and> length (filter master (cores early_mid)) = 1
   \<and> (\<exists>sys'. step early_fail_env 1 early_mid = Some sys'
         \<and> pc (cores sys' ! 1) = PerCpuInit \<and> \<not> master (cores sys' ! 1))"
proof -
  note o = outcomeD[OF outcome_early_mid]
  note m = map2D[OF o(1)] and mm = map2D[OF o(2)]
  note g = master_cpu_id_assigned_first[OF wf_early_fail run_early_mid]
  have arg: "arg_cpu_id (cores early_mid ! 0) = 0" by code_simp
  have c: "cores early_mid ! 0 \<in> set (cores early_mid)" using m by simp
  have e: "master (cores early_mid ! 0) \<and> 8 \<le> rank (pc (cores early_mid ! 0))"
    using m(2) mm(2) by simp
  from g c e have id: "master_cpu_id (shared early_mid) = arg_cpu_id (cores early_mid ! 0)"
    by blast
  have inv: "INVALID_CPU_ID early_fail_env = - 1" by code_simp
  have nz: "error (shared early_mid) \<noteq> 0" using o(5) by simp
  with g have one: "length (filter master (cores early_mid)) = 1" by blast
  have "step early_fail_env 1 early_mid \<noteq> None" by code_simp
  then obtain sys' where s: "step early_fail_env 1 early_mid = Some sys'" by blast
  have "1 < length (cores early_mid)" using m(1) by simp
  moreover have "master_cpu_id (shared early_mid) \<noteq> INVALID_CPU_ID early_fail_env"
    using id arg inv by simp
  ultimately have "pc (cores sys' ! 1) = PerCpuInit \<and> \<not> master (cores sys' ! 1)"
    using g m(3) s by blast
  with wf_early_fail run_early_mid o(1,2,5) id arg one s show ?thesis by simp
qed

end
